theory Spec2Isabelle
  imports Complex_Main "HOL-Library.Word" "HOL-Library.AList"
begin

section \<open>JavaScript strings\<close>

text \<open>
  A JavaScript string is a sequence of UTF-16 code units, and the regular expressions of
  \<^verbatim>\<open>app.js\<close> (none has the \<^verbatim>\<open>u\<close> flag) work on code units. A string is
  therefore a list of 16-bit words; \<open>js\<close> embeds an ASCII literal.
\<close>

type_synonym cu = "16 word"

type_synonym jsstring = "cu list"

definition js :: "string \<Rightarrow> jsstring" where
  "js s = map of_char s"

text \<open>\<^verbatim>\<open>\d\<close> without the \<^verbatim>\<open>u\<close> flag: the ten ASCII digits.\<close>

definition is_digit :: "cu \<Rightarrow> bool" where
  "is_digit c \<longleftrightarrow> 0x30 \<le> c \<and> c \<le> 0x39"

text \<open>Matching a literal at the start of the input: the rest after it, if it is there.\<close>

fun strip_prefix :: "jsstring \<Rightarrow> jsstring \<Rightarrow> jsstring option" where
  "strip_prefix [] s = Some s"
| "strip_prefix (p # ps) [] = None"
| "strip_prefix (p # ps) (c # cs) = (if p = c then strip_prefix ps cs else None)"

text \<open>Template-literal interpolation \<^verbatim>\<open>${n}\<close> of a non-negative integer: its decimal digits.\<close>

fun to_decimal :: "nat \<Rightarrow> jsstring" where
  "to_decimal n =
     (if n < 10 then [of_nat (48 + n)]
      else to_decimal (n div 10) @ [of_nat (48 + n mod 10)])"

lemma strip_prefix_iff: "strip_prefix p s = Some r \<longleftrightarrow> s = p @ r"
  by (induction p s rule: strip_prefix.induct) auto

lemma strip_prefix_append [simp]: "strip_prefix p (p @ r) = Some r"
  by (simp add: strip_prefix_iff)

section \<open>The marker parser: processCitationTags\<close>

text \<open>
  \<^verbatim>\<open>content.replace(/\[\[Src:(\d+)\]\]/g, (match, srcNum) => ...)\<close>.
  \<open>match_marker\<close> is one attempt of the regular expression at the start of the input: the
  literal \<^verbatim>\<open>[[Src:\<close>, a greedy non-empty run of digits, the literal \<^verbatim>\<open>]]\<close>. It
  returns the captured digits and the input after the match. The greedy run is the only
  candidate: after a shorter run the next code unit is a digit, not \<^verbatim>\<open>]\<close>
  (lemma \<open>match_marker_iff\<close> states the language matched).
\<close>

definition match_marker :: "jsstring \<Rightarrow> (jsstring \<times> jsstring) option" where
  "match_marker s =
     (case strip_prefix (js ''[[Src:'') s of
        None \<Rightarrow> None
      | Some r \<Rightarrow>
          (let srcNum = takeWhile is_digit r in
           if srcNum = [] then None
           else (case strip_prefix (js '']]'') (dropWhile is_digit r) of
                   None \<Rightarrow> None
                 | Some rest \<Rightarrow> Some (srcNum, rest))))"

lemma match_marker_shorter:
  assumes "match_marker s = Some (d, rest)"
  shows "length rest < length s"
proof -
  from assms obtain r where r: "strip_prefix (js ''[[Src:'') s = Some r"
    and rest: "strip_prefix (js '']]'') (dropWhile is_digit r) = Some rest"
    by (auto simp: match_marker_def Let_def split: option.splits if_splits)
  from r have "s = js ''[[Src:'' @ r" by (simp add: strip_prefix_iff)
  moreover from rest have "dropWhile is_digit r = js '']]'' @ rest"
    by (simp add: strip_prefix_iff)
  then have "length rest \<le> length (dropWhile is_digit r)" by simp
  moreover have "length (dropWhile is_digit r) \<le> length r"
    by (rule length_dropWhile_le)
  ultimately show ?thesis by (simp add: js_def)
qed

text \<open>
  The global replace scans from the left: where the expression matches, the match is one
  piece and the scan goes on after it; elsewhere the code unit is copied and the scan goes
  on at the next one. (The expression never matches the empty string.)
\<close>

datatype piece = Lit cu | Marker jsstring

function pieces :: "jsstring \<Rightarrow> piece list" where
  "pieces [] = []"
| "pieces (c # cs) =
     (case match_marker (c # cs) of
        Some (srcNum, rest) \<Rightarrow> Marker srcNum # pieces rest
      | None \<Rightarrow> Lit c # pieces cs)"
  by pat_completeness auto
termination
  by (relation "measure length") (auto dest: match_marker_shorter)

text \<open>
  The two local variables of one call, \<^verbatim>\<open>let citationNumber = 1; const citationMap = {}\<close>.
  The object keeps its string keys in insertion order, so it is an association list;
  \<open>AList.update\<close> appends a new key and overwrites an old one in place.
\<close>

record numbering =
  citationNumber :: nat
  citationMap :: "(jsstring \<times> nat) list"

definition fresh_numbering :: numbering where
  "fresh_numbering = \<lparr>citationNumber = 1, citationMap = []\<rparr>"

text \<open>
  The body of the callback up to \<^verbatim>\<open>displayNum\<close>. \<^verbatim>\<open>!citationMap[sourceId]\<close> holds for a
  missing key and for the value 0.
\<close>

definition cite :: "jsstring \<Rightarrow> numbering \<Rightarrow> nat \<times> numbering" where
  "cite sourceId st =
     (let unset = (case map_of (citationMap st) sourceId of None \<Rightarrow> True | Some n \<Rightarrow> n = 0) in
      if unset
      then (citationNumber st,
            \<lparr>citationNumber = citationNumber st + 1,
             citationMap = AList.update sourceId (citationNumber st) (citationMap st)\<rparr>)
      else (case map_of (citationMap st) sourceId of
              Some n \<Rightarrow> (n, st)
            | None \<Rightarrow> (citationNumber st, st)))"

text \<open>What the replace puts out: a copied code unit, or the placeholder of a marker.\<close>

datatype out = Text cu | Placeholder jsstring nat

fun number_pieces :: "piece list \<Rightarrow> numbering \<Rightarrow> out list \<times> numbering" where
  "number_pieces [] st = ([], st)"
| "number_pieces (Lit c # ps) st =
     (let (os, st') = number_pieces ps st in (Text c # os, st'))"
| "number_pieces (Marker srcNum # ps) st =
     (let sourceId = js ''src_'' @ srcNum;
          (displayNum, st1) = cite sourceId st;
          (os, st') = number_pieces ps st1
      in (Placeholder sourceId displayNum # os, st'))"

text \<open>The string the callback returns for one marker.\<close>

definition citation_span :: "jsstring \<Rightarrow> jsstring \<Rightarrow> nat \<Rightarrow> jsstring" where
  \<open>citation_span sectionKey sourceId displayNum =
     js ''<span class="citation" data-source-id="'' @ sourceId @
     js ''" data-section="'' @ sectionKey @
     js ''" data-num="'' @ to_decimal displayNum @ js ''">'' @
     to_decimal displayNum @ js ''</span>''\<close>

fun emit :: "jsstring \<Rightarrow> out \<Rightarrow> jsstring" where
  "emit sectionKey (Text c) = [c]"
| "emit sectionKey (Placeholder sourceId displayNum) = citation_span sectionKey sourceId displayNum"

definition placeholders :: "jsstring \<Rightarrow> out list" where
  "placeholders content = fst (number_pieces (pieces content) fresh_numbering)"

definition citationTable :: "jsstring \<Rightarrow> (jsstring \<times> nat) list" where
  "citationTable content = citationMap (snd (number_pieces (pieces content) fresh_numbering))"

definition processCitationTags :: "jsstring \<Rightarrow> jsstring \<Rightarrow> jsstring" where
  "processCitationTags content sectionKey = concat (map (emit sectionKey) (placeholders content))"

section \<open>The markdown renderer: renderMarkdown\<close>

text \<open>
  Line terminators: \<^verbatim>\<open>.\<close> matches every code unit but these four, and with the
  \<^verbatim>\<open>m\<close> flag \<^verbatim>\<open>^\<close> holds at the start of the input and after one of them,
  \<^verbatim>\<open>$\<close> at the end of the input and before one of them.
\<close>

definition is_LT :: "cu \<Rightarrow> bool" where
  "is_LT c \<longleftrightarrow> c = 0x0A \<or> c = 0x0D \<or> c = 0x2028 \<or> c = 0x2029"

text \<open>The greedy \<^verbatim>\<open>.+\<close> or \<^verbatim>\<open>.*\<close> at the end of a line rule: the rest of the line.\<close>

definition rest_of_line :: "jsstring \<Rightarrow> jsstring" where
  "rest_of_line s = takeWhile (\<lambda>c. \<not> is_LT c) s"

text \<open>
  \<^verbatim>\<open>s.replace(re, replacement)\<close> for a global \<^verbatim>\<open>re\<close>. A matcher is one attempt of the
  expression at the current index: it is given whether \<^verbatim>\<open>^\<close> holds there and the input
  from there on, and returns the replacement text and the length of the match. The scan
  tries every index from the left; after a match it puts out the replacement and goes on
  behind the match (the counter \<open>k\<close> is the number of matched code units still to skip);
  where nothing matches the code unit is copied. No expression of \<^verbatim>\<open>renderMarkdown\<close>
  matches the empty string, so a match has length at least 1.
\<close>

type_synonym matcher = "bool \<Rightarrow> jsstring \<Rightarrow> (jsstring \<times> nat) option"

fun replace_g :: "matcher \<Rightarrow> nat \<Rightarrow> bool \<Rightarrow> jsstring \<Rightarrow> jsstring" where
  "replace_g m k bol [] = []"
| "replace_g m (Suc k) bol (c # cs) = replace_g m k (is_LT c) cs"
| "replace_g m 0 bol (c # cs) =
     (case m bol (c # cs) of
        Some (rep, n) \<Rightarrow> rep @ replace_g m (n - 1) (is_LT c) cs
      | None \<Rightarrow> c # replace_g m 0 (is_LT c) cs)"

definition replace_all :: "matcher \<Rightarrow> jsstring \<Rightarrow> jsstring" where
  "replace_all m s = replace_g m 0 True s"

text \<open>
  \<^verbatim>\<open>/^### (.+)$/gm\<close> with \<^verbatim>\<open>'<h3>$1</h3>'\<close>, and the other rules of that shape: at
  the start of a line, a literal prefix, then the non-empty rest of the line.
\<close>

definition line_rule :: "jsstring \<Rightarrow> jsstring \<Rightarrow> jsstring \<Rightarrow> matcher" where
  "line_rule pfx opn cls bol s =
     (if \<not> bol then None
      else (case strip_prefix pfx s of
              None \<Rightarrow> None
            | Some r \<Rightarrow>
                (let body = rest_of_line r in
                 if body = [] then None
                 else Some (opn @ body @ cls, length pfx + length body))))"

text \<open>
  \<^verbatim>\<open>/\*\*(.+?)\*\*/g\<close> and \<^verbatim>\<open>/\*(.+?)\*/g\<close>. The lazy \<^verbatim>\<open>.+?\<close> takes one code unit
  of the line, then as few more as possible until the closing delimiter follows.
\<close>

fun lazy_body :: "jsstring \<Rightarrow> jsstring \<Rightarrow> jsstring option" where
  "lazy_body d [] = None"
| "lazy_body d (c # cs) =
     (if is_LT c then None
      else if strip_prefix d cs \<noteq> None then Some [c]
      else (case lazy_body d cs of None \<Rightarrow> None | Some body \<Rightarrow> Some (c # body)))"

definition emphasis :: "jsstring \<Rightarrow> jsstring \<Rightarrow> jsstring \<Rightarrow> matcher" where
  "emphasis d opn cls bol s =
     (case strip_prefix d s of
        None \<Rightarrow> None
      | Some r \<Rightarrow>
          (case lazy_body d r of
             None \<Rightarrow> None
           | Some body \<Rightarrow> Some (opn @ body @ cls, 2 * length d + length body)))"

text \<open>
  \<^verbatim>\<open>/(<li>.*<\/li>\n?)+/g\<close> with \<^verbatim>\<open>'<ul>$&</ul>'\<close>. In one repetition the greedy
  \<^verbatim>\<open>.*\<close> runs to the end of the line and backtracks to the last \<^verbatim>\<open></li>\<close> of the line;
  a newline right behind it is taken. Nothing follows the group, so the repetitions go on
  while the next one matches.
\<close>

fun last_index :: "jsstring \<Rightarrow> jsstring \<Rightarrow> nat option" where
  "last_index d [] = None"
| "last_index d (c # cs) =
     (case last_index d cs of
        Some k \<Rightarrow> Some (Suc k)
      | None \<Rightarrow> (if strip_prefix d (c # cs) \<noteq> None then Some 0 else None))"

definition with_newline :: "nat \<Rightarrow> jsstring \<Rightarrow> nat" where
  "with_newline n s = (if take 1 (drop n s) = [0x0A] then n + 1 else n)"

definition li_item :: "jsstring \<Rightarrow> nat option" where
  "li_item s =
     (case strip_prefix (js ''<li>'') s of
        None \<Rightarrow> None
      | Some r \<Rightarrow>
          (case last_index (js ''</li>'') (rest_of_line r) of
             None \<Rightarrow> None
           | Some k \<Rightarrow> Some (with_newline (4 + k + 5) s)))"

lemma with_newline_ge: "n \<le> with_newline n s"
  by (simp add: with_newline_def)

lemma li_item_pos:
  assumes "li_item s = Some n"
  shows "0 < n \<and> s \<noteq> []"
proof -
  from assms obtain r k where r: "strip_prefix (js ''<li>'') s = Some r"
    and n: "n = with_newline (4 + k + 5) s"
    by (auto simp: li_item_def split: option.splits)
  from r have "s = js ''<li>'' @ r" by (simp add: strip_prefix_iff)
  then have "s \<noteq> []" by (simp add: js_def)
  moreover have "4 + k + 5 \<le> n" unfolding n by (rule with_newline_ge)
  ultimately show ?thesis by simp
qed

function li_items :: "jsstring \<Rightarrow> nat" where
  "li_items s = (case li_item s of None \<Rightarrow> 0 | Some n \<Rightarrow> n + li_items (drop n s))"
  by pat_completeness auto
termination
  by (relation "measure length") (auto dest: li_item_pos)

declare li_items.simps [simp del]

definition ul_wrap :: matcher where
  "ul_wrap bol s =
     (case li_item s of
        None \<Rightarrow> None
      | Some _ \<Rightarrow> (let n = li_items s in Some (js ''<ul>'' @ take n s @ js ''</ul>'', n)))"

text \<open>
  \<^verbatim>\<open>/^\d+\. (.+)$/gm\<close> with \<^verbatim>\<open>'<li>$1</li>'\<close>: the greedy digits must be followed by
  the dot, so only the whole run of digits can match.
\<close>

definition numbered_item :: matcher where
  "numbered_item bol s =
     (if \<not> bol then None
      else (let ds = takeWhile is_digit s in
            if ds = [] then None
            else (case strip_prefix (js ''. '') (dropWhile is_digit s) of
                    None \<Rightarrow> None
                  | Some r \<Rightarrow>
                      (let body = rest_of_line r in
                       if body = [] then None
                       else Some (js ''<li>'' @ body @ js ''</li>'', length ds + 2 + length body)))))"

text \<open>
  \<^verbatim>\<open>String.prototype.trim\<close> removes white space and line terminators at both ends.
\<close>

definition is_ws :: "cu \<Rightarrow> bool" where
  "is_ws c \<longleftrightarrow>
     c = 0x09 \<or> c = 0x0A \<or> c = 0x0B \<or> c = 0x0C \<or> c = 0x0D \<or> c = 0x20 \<or> c = 0xA0 \<or>
     c = 0x1680 \<or> (0x2000 \<le> c \<and> c \<le> 0x200A) \<or> c = 0x2028 \<or> c = 0x2029 \<or>
     c = 0x202F \<or> c = 0x205F \<or> c = 0x3000 \<or> c = 0xFEFF"

definition trim :: "jsstring \<Rightarrow> jsstring" where
  "trim s = rev (dropWhile is_ws (rev (dropWhile is_ws s)))"

text \<open>\<^verbatim>\<open>s.split(c)\<close> for a separator of one code unit: the empty string gives one empty part.\<close>

fun split_on :: "cu \<Rightarrow> jsstring \<Rightarrow> jsstring list" where
  "split_on sep [] = [[]]"
| "split_on sep (c # cs) =
     (if c = sep then [] # split_on sep cs
      else (case split_on sep cs of
              [] \<Rightarrow> [[c]]
            | x # xs \<Rightarrow> (c # x) # xs))"

text \<open>
  \<^verbatim>\<open>/\|(.+)\|\n\|[-: |]+\|\n((?:\|.+\|\n?)+)/g\<close>. The header row: a bar, the greedy
  \<^verbatim>\<open>.+\<close> backtracks to a bar that a newline follows, which can only be the last code
  unit of the line. The separator row likewise, over the class \<^verbatim>\<open>[-: |]\<close>. A body row:
  a bar, at least one code unit, the last bar of the line, and a newline if it follows;
  the rows go on while the next one matches.
\<close>

definition table_header :: "jsstring \<Rightarrow> (jsstring \<times> jsstring) option" where
  "table_header s =
     (case s of
        [] \<Rightarrow> None
      | c # r \<Rightarrow>
          (let line = rest_of_line r; after = drop (length line) r in
           if c = 0x7C \<and> 2 \<le> length line \<and> last line = 0x7C \<and> take 1 after = [0x0A]
           then Some (butlast line, drop 1 after)
           else None))"

definition is_sep_char :: "cu \<Rightarrow> bool" where
  "is_sep_char c \<longleftrightarrow> c = 0x2D \<or> c = 0x3A \<or> c = 0x20 \<or> c = 0x7C"

definition table_separator :: "jsstring \<Rightarrow> jsstring option" where
  "table_separator s =
     (case s of
        [] \<Rightarrow> None
      | c # r \<Rightarrow>
          (let run = takeWhile is_sep_char r; after = drop (length run) r in
           if c = 0x7C \<and> 2 \<le> length run \<and> last run = 0x7C \<and> take 1 after = [0x0A]
           then Some (drop 1 after)
           else None))"

definition table_row :: "jsstring \<Rightarrow> nat option" where
  "table_row s =
     (case s of
        [] \<Rightarrow> None
      | c # r \<Rightarrow>
          (if c \<noteq> 0x7C then None
           else (case last_index [0x7C] (rest_of_line r) of
                   None \<Rightarrow> None
                 | Some k \<Rightarrow> if k = 0 then None else Some (with_newline (1 + k + 1) s))))"

lemma table_row_pos:
  assumes "table_row s = Some n"
  shows "0 < n \<and> s \<noteq> []"
proof -
  from assms obtain k where "s \<noteq> []" and n: "n = with_newline (1 + k + 1) s"
    by (auto simp: table_row_def split: list.splits option.splits if_splits)
  moreover have "1 + k + 1 \<le> n" unfolding n by (rule with_newline_ge)
  ultimately show ?thesis by simp
qed

function table_rows :: "jsstring \<Rightarrow> nat" where
  "table_rows s = (case table_row s of None \<Rightarrow> 0 | Some n \<Rightarrow> n + table_rows (drop n s))"
  by pat_completeness auto
termination
  by (relation "measure length") (auto dest: table_row_pos)

declare table_rows.simps [simp del]

text \<open>
  The callback: \<^verbatim>\<open>row.split('|').filter(c => c.trim())\<close> keeps the cells that are not
  blank; every cell is put out trimmed.
\<close>

definition cells :: "jsstring \<Rightarrow> jsstring list" where
  "cells row = filter (\<lambda>c. trim c \<noteq> []) (split_on 0x7C row)"

definition render_table :: "jsstring \<Rightarrow> jsstring \<Rightarrow> jsstring" where
  "render_table headerRow bodyRows =
     (let headers = cells headerRow;
          rows = map cells (split_on 0x0A (trim bodyRows))
      in js ''<table><thead><tr>'' @
         concat (map (\<lambda>h. js ''<th>'' @ trim h @ js ''</th>'') headers) @
         js ''</tr></thead><tbody>'' @
         concat (map (\<lambda>row. js ''<tr>'' @
                        concat (map (\<lambda>cell. js ''<td>'' @ trim cell @ js ''</td>'') row) @
                        js ''</tr>'') rows) @
         js ''</tbody></table>'')"

definition table_block :: matcher where
  "table_block bol s =
     (case table_header s of
        None \<Rightarrow> None
      | Some (headerRow, s1) \<Rightarrow>
          (case table_separator s1 of
             None \<Rightarrow> None
           | Some s2 \<Rightarrow>
               (case table_row s2 of
                  None \<Rightarrow> None
                | Some _ \<Rightarrow>
                    (let n = table_rows s2 in
                     Some (render_table headerRow (take n s2), length s - length s2 + n)))))"

text \<open>
  \<^verbatim>\<open>html.split('\n\n').map(p => ...).join('\n')\<close>. A chunk is trimmed; an empty one
  gives the empty string, one that starts with a block tag is kept, any other is wrapped
  in \<^verbatim>\<open><p>\<close>. \<open>block_of\<close> is that case distinction, \<open>block_html\<close> what the callback
  returns for it.
\<close>

fun split_blank :: "jsstring \<Rightarrow> jsstring list" where
  "split_blank [] = [[]]"
| "split_blank [c] = [[c]]"
| "split_blank (a # b # cs) =
     (if a = 0x0A \<and> b = 0x0A then [] # split_blank cs
      else (case split_blank (b # cs) of
              [] \<Rightarrow> [[a]]
            | x # xs \<Rightarrow> (a # x) # xs))"

fun join :: "jsstring \<Rightarrow> jsstring list \<Rightarrow> jsstring" where
  "join sep [] = []"
| "join sep [x] = x"
| "join sep (x # y # ys) = x @ sep @ join sep (y # ys)"

definition starts_with :: "jsstring \<Rightarrow> jsstring \<Rightarrow> bool" where
  "starts_with s p \<longleftrightarrow> strip_prefix p s \<noteq> None"

datatype block = Paragraph jsstring | Markup jsstring

definition block_of :: "jsstring \<Rightarrow> block option" where
  "block_of chunk =
     (let p = trim chunk in
      if p = [] then None
      else if starts_with p (js ''<h'') \<or> starts_with p (js ''<ul'') \<or> starts_with p (js ''<ol'') \<or>
              starts_with p (js ''<li'') \<or> starts_with p (js ''<table'')
      then Some (Markup p)
      else Some (Paragraph p))"

fun block_html :: "block option \<Rightarrow> jsstring" where
  "block_html None = []"
| "block_html (Some (Markup p)) = p"
| "block_html (Some (Paragraph p)) = js ''<p>'' @ p @ js ''</p>''"

definition paragraphs :: "jsstring \<Rightarrow> jsstring" where
  "paragraphs html = join [0x0A] (map (\<lambda>p. block_html (block_of p)) (split_blank html))"

text \<open>The passes of \<^verbatim>\<open>renderMarkdown\<close> before the paragraphs, in the order of the source.\<close>

definition inline_markup :: "jsstring \<Rightarrow> jsstring" where
  "inline_markup content =
     (let html = content;
          html = replace_all (line_rule (js ''### '') (js ''<h3>'') (js ''</h3>'')) html;
          html = replace_all (line_rule (js ''## '') (js ''<h2>'') (js ''</h2>'')) html;
          html = replace_all (line_rule (js ''# '') (js ''<h1>'') (js ''</h1>'')) html;
          html = replace_all (emphasis (js ''**'') (js ''<strong>'') (js ''</strong>'')) html;
          html = replace_all (emphasis (js ''*'') (js ''<em>'') (js ''</em>'')) html;
          html = replace_all (line_rule (js ''* '') (js ''<li>'') (js ''</li>'')) html;
          html = replace_all ul_wrap html;
          html = replace_all numbered_item html;
          html = replace_all table_block html
      in html)"

definition renderMarkdown :: "jsstring \<Rightarrow> jsstring" where
  "renderMarkdown content = paragraphs (inline_markup content)"


section \<open>The section model\<close>

text \<open>
  What the backend delivers per section. A field that is absent, \<^verbatim>\<open>null\<close> or
  \<^verbatim>\<open>undefined\<close> is \<open>None\<close>.
\<close>

record source =
  title :: "jsstring option"
  page_number :: "jsstring option"
  raw_text :: "jsstring option"

record report_section =
  cited_text :: "jsstring option"
  sources :: "(jsstring \<rightharpoonup> source) option"

text \<open>\<^verbatim>\<open>v || fallback\<close> for a string field: the fallback for a missing or empty one.\<close>

definition or_else :: "jsstring option \<Rightarrow> jsstring \<Rightarrow> jsstring" where
  "or_else v fallback = (case v of None \<Rightarrow> fallback | Some s \<Rightarrow> if s = [] then fallback else s)"

text \<open>
  \<^verbatim>\<open>createCollapsibleSection\<close>: the markup of the section body,
  \<^verbatim>\<open>renderMarkdown(processCitationTags(section.cited_text || '', section.sources || {}, key))\<close>.
\<close>

definition section_body :: "jsstring \<Rightarrow> report_section \<Rightarrow> jsstring" where
  "section_body key sec = renderMarkdown (processCitationTags (or_else (cited_text sec) []) key)"

definition sectionOrder :: "jsstring list" where
  "sectionOrder =
     [js ''overview'', js ''products'', js ''leadership'', js ''stakeholders'', js ''metrics'']"

text \<open>
  The loop of \<^verbatim>\<open>displayResults\<close>: the sections that are present, in the fixed order,
  each with the markup of its body.
\<close>

fun section_bodies :: "(jsstring \<rightharpoonup> report_section) \<Rightarrow> jsstring list \<Rightarrow> (jsstring \<times> jsstring) list" where
  "section_bodies sections [] = []"
| "section_bodies sections (key # keys) =
     (case sections key of
        None \<Rightarrow> section_bodies sections keys
      | Some sec \<Rightarrow> (key, section_body key sec) # section_bodies sections keys)"

text \<open>\<^verbatim>\<open>sectionData[sectionKey]?.sources?.[sourceId]\<close>.\<close>

definition lookup_source :: "(jsstring \<rightharpoonup> report_section) \<Rightarrow> jsstring \<Rightarrow> jsstring \<Rightarrow> source option" where
  "lookup_source sectionData sectionKey sourceId =
     (case sectionData sectionKey of
        None \<Rightarrow> None
      | Some sec \<Rightarrow> (case sources sec of None \<Rightarrow> None | Some m \<Rightarrow> m sourceId))"

section \<open>JavaScript numbers\<close>

text \<open>
  A JavaScript number is an IEEE 754 double: a finite value, one of the two infinities, or
  \<^verbatim>\<open>NaN\<close>. A finite double is kept as the real number it stands for (the sign of zero
  is dropped: nothing here tells \<^verbatim>\<open>-0\<close> from \<^verbatim>\<open>+0\<close>). \<open>fl\<close> rounds a real number to
  the nearest double, a tie to the even significand: the unit of the last place is
  \<open>2^(e - 52)\<close> in the binade \<open>[2^e, 2^(e+1))\<close> and never below \<open>2^-1074\<close>, and a rounded
  value of magnitude \<open>2^1024\<close> or more is an infinity. Addition and subtraction are the
  exact operation followed by this rounding, with the rules of IEEE 754 for infinities and
  \<^verbatim>\<open>NaN\<close>; \<^verbatim>\<open>>\<close> is false on \<^verbatim>\<open>NaN\<close>; \<^verbatim>\<open>Math.max\<close> returns \<^verbatim>\<open>NaN\<close> if an argument is.
\<close>

datatype jsnum = Num real | PosInf | NegInf | NaN

definition round_half_even :: "real \<Rightarrow> int" where
  "round_half_even r =
     (let f = \<lfloor>r\<rfloor>; d = r - of_int f in
      if d < 1 / 2 then f
      else if 1 / 2 < d then f + 1
      else if even f then f else f + 1)"

definition fl :: "real \<Rightarrow> jsnum" where
  "fl x =
     (if x = 0 then Num 0
      else (let e = max (\<lfloor>log 2 \<bar>x\<bar>\<rfloor> - 52) (- 1074);
                v = of_int (round_half_even (x / 2 powr of_int e)) * 2 powr of_int e
            in if 2 ^ 1024 \<le> \<bar>v\<bar> then (if 0 < x then PosInf else NegInf) else Num v))"

fun jadd :: "jsnum \<Rightarrow> jsnum \<Rightarrow> jsnum" where
  "jadd (Num a) (Num b) = fl (a + b)"
| "jadd NaN _ = NaN"
| "jadd _ NaN = NaN"
| "jadd PosInf NegInf = NaN"
| "jadd NegInf PosInf = NaN"
| "jadd PosInf _ = PosInf"
| "jadd _ PosInf = PosInf"
| "jadd NegInf _ = NegInf"
| "jadd _ NegInf = NegInf"

fun jneg :: "jsnum \<Rightarrow> jsnum" where
  "jneg (Num a) = Num (- a)"
| "jneg PosInf = NegInf"
| "jneg NegInf = PosInf"
| "jneg NaN = NaN"

definition jsub :: "jsnum \<Rightarrow> jsnum \<Rightarrow> jsnum" where
  "jsub a b = jadd a (jneg b)"

fun jgt :: "jsnum \<Rightarrow> jsnum \<Rightarrow> bool" where
  "jgt (Num a) (Num b) = (b < a)"
| "jgt NaN _ = False"
| "jgt _ NaN = False"
| "jgt PosInf PosInf = False"
| "jgt PosInf _ = True"
| "jgt NegInf _ = False"
| "jgt _ NegInf = True"
| "jgt _ PosInf = False"

fun jmax :: "jsnum \<Rightarrow> jsnum \<Rightarrow> jsnum" where
  "jmax NaN _ = NaN"
| "jmax _ NaN = NaN"
| "jmax a b = (if jgt a b then a else b)"

section \<open>The viewport positioner: positionTooltipNear\<close>

text \<open>
  The numbers the function reads: the anchor's rectangle, the measured size of the
  popover and the size of the window, in CSS pixels. The browser returns finite numbers,
  whole or fractional; the record holds their values.
\<close>

record geometry =
  rect_left :: real
  rect_right :: real
  rect_top :: real
  tooltip_width :: real
  tooltip_height :: real
  innerWidth :: real
  innerHeight :: real

definition padding :: jsnum where
  "padding = Num 12"

definition positionTooltipNear :: "geometry \<Rightarrow> jsnum \<times> jsnum" where
  "positionTooltipNear g =
     (let x = jadd (Num (rect_right g)) padding;
          y = Num (rect_top g);
          x = (if jgt (jadd x (Num (tooltip_width g))) (jsub (Num (innerWidth g)) padding)
               then jsub (jsub (Num (rect_left g)) (Num (tooltip_width g))) padding else x);
          y = (if jgt (jadd y (Num (tooltip_height g))) (jsub (Num (innerHeight g)) padding)
               then jsub (jsub (Num (innerHeight g)) (Num (tooltip_height g))) padding else y);
          x = jmax padding x;
          y = jmax padding y
      in (x, y))"

section \<open>The tooltip controller\<close>

text \<open>
  The state the handlers read and write: the classes \<^verbatim>\<open>visible\<close> and \<^verbatim>\<open>pinned\<close> of
  the popover, the three module variables, the text and the position of the popover, the
  console, and the timers of the browser that \<^verbatim>\<open>setTimeout\<close> has started and that have
  neither fired nor been cleared (identifier and delay in milliseconds). The browser
  hands out positive identifiers, each once.
\<close>

datatype diagnostic = ShowingTooltip jsstring jsstring | SourceNotFound jsstring jsstring

record tooltip_state =
  visible :: bool
  pinned :: bool
  hideTimeout :: "nat option"
  currentSourceId :: "jsstring option"
  currentSectionKey :: "jsstring option"
  tooltipPage :: jsstring
  tooltipTitle :: jsstring
  tooltipContent :: jsstring
  position :: "jsnum \<times> jsnum"
  console :: "diagnostic list"
  pending :: "(nat \<times> nat) list"
  next_timer :: nat

definition initial_state :: tooltip_state where
  "initial_state =
     \<lparr>visible = False, pinned = False, hideTimeout = None, currentSourceId = None,
      currentSectionKey = None, tooltipPage = [], tooltipTitle = [], tooltipContent = [],
      position = (Num 0, Num 0), console = [], pending = [], next_timer = 1\<rparr>"

text \<open>\<^verbatim>\<open>clearTimeout(id)\<close>: the timer no longer fires; an unknown identifier does nothing.\<close>

definition clearTimeout :: "nat \<Rightarrow> tooltip_state \<Rightarrow> tooltip_state" where
  "clearTimeout t st = st\<lparr>pending := filter (\<lambda>(i, d). i \<noteq> t) (pending st)\<rparr>"

text \<open>\<^verbatim>\<open>if (hideTimeout) { clearTimeout(hideTimeout); hideTimeout = null; }\<close>\<close>

definition cancelHideTimer :: "tooltip_state \<Rightarrow> tooltip_state" where
  "cancelHideTimer st =
     (case hideTimeout st of
        None \<Rightarrow> st
      | Some t \<Rightarrow> if t = 0 then st else (clearTimeout t st)\<lparr>hideTimeout := None\<rparr>)"

definition showTooltip ::
  "(jsstring \<rightharpoonup> report_section) \<Rightarrow> jsstring \<Rightarrow> jsstring \<Rightarrow> geometry \<Rightarrow> tooltip_state \<Rightarrow> tooltip_state" where
  "showTooltip sectionData sourceId sectionKey g st0 =
     (let st = cancelHideTimer st0;
          st = st\<lparr>currentSourceId := Some sourceId, currentSectionKey := Some sectionKey\<rparr>
      in case lookup_source sectionData sectionKey sourceId of
           Some src \<Rightarrow>
             st\<lparr>tooltipPage := or_else (page_number src) (js ''Source''),
                tooltipTitle := or_else (title src) (js ''Annual Report''),
                tooltipContent := or_else (raw_text src) (js ''No preview available''),
                position := positionTooltipNear g,
                visible := True,
                console := console st @ [ShowingTooltip sourceId sectionKey]\<rparr>
         | None \<Rightarrow> st\<lparr>console := console st @ [SourceNotFound sourceId sectionKey]\<rparr>)"

definition pinTooltip :: "tooltip_state \<Rightarrow> tooltip_state" where
  "pinTooltip st = (cancelHideTimer st)\<lparr>pinned := True\<rparr>"

text \<open>
  \<^verbatim>\<open>hideTimeout = setTimeout(() => {...}, 300)\<close>, unless the popover is pinned. The new
  timer is added to the pending ones; the variable takes its identifier.
\<close>

definition startHideTimer :: "tooltip_state \<Rightarrow> tooltip_state" where
  "startHideTimer st =
     (if pinned st then st
      else st\<lparr>hideTimeout := Some (next_timer st),
              pending := pending st @ [(next_timer st, 300)],
              next_timer := next_timer st + 1\<rparr>)"

text \<open>The callback of the timer, when the browser runs it.\<close>

definition timer_callback :: "tooltip_state \<Rightarrow> tooltip_state" where
  "timer_callback st = st\<lparr>visible := False, currentSourceId := None, currentSectionKey := None\<rparr>"

definition hideTooltip :: "tooltip_state \<Rightarrow> tooltip_state" where
  "hideTooltip st =
     st\<lparr>visible := False, pinned := False, currentSourceId := None, currentSectionKey := None\<rparr>"

text \<open>
  The click listener of the document:
  \<^verbatim>\<open>if (!tooltip.contains(e.target) && !e.target.classList.contains('citation')) hideTooltip()\<close>.
\<close>

datatype click_target = OnCitation | InTooltip | Elsewhere

definition document_click :: "click_target \<Rightarrow> tooltip_state \<Rightarrow> tooltip_state" where
  "document_click target st = (if target \<noteq> InTooltip \<and> target \<noteq> OnCitation then hideTooltip st else st)"

text \<open>
  The events the listeners of \<^verbatim>\<open>addCitationListeners\<close> and of the document react to, and
  the expiry of a timer. A click on a citation runs its own listener and then, bubbling,
  the listener of the document. A timer that is not pending does not fire.
\<close>

datatype event =
    MouseEnterCitation jsstring jsstring geometry
  | MouseLeaveCitation
  | ClickCitation
  | MouseEnterTooltip
  | MouseLeaveTooltip
  | ClickTooltip
  | ClickOutside
  | TimerFires nat

fun step :: "(jsstring \<rightharpoonup> report_section) \<Rightarrow> event \<Rightarrow> tooltip_state \<Rightarrow> tooltip_state" where
  "step sectionData (MouseEnterCitation sourceId sectionKey g) st = showTooltip sectionData sourceId sectionKey g st"
| "step sectionData MouseLeaveCitation st = startHideTimer st"
| "step sectionData ClickCitation st = document_click OnCitation (pinTooltip st)"
| "step sectionData MouseEnterTooltip st = cancelHideTimer st"
| "step sectionData MouseLeaveTooltip st = startHideTimer st"
| "step sectionData ClickTooltip st = document_click InTooltip st"
| "step sectionData ClickOutside st = document_click Elsewhere st"
| "step sectionData (TimerFires t) st =
     (if t \<in> fst ` set (pending st) then timer_callback (clearTimeout t st) else st)"

fun run :: "(jsstring \<rightharpoonup> report_section) \<Rightarrow> event list \<Rightarrow> tooltip_state \<Rightarrow> tooltip_state" where
  "run sectionData [] st = st"
| "run sectionData (e # es) st = run sectionData es (step sectionData e st)"


section \<open>Properties of the marker parser\<close>

fun markers :: "piece list \<Rightarrow> jsstring list" where
  "markers [] = []"
| "markers (Lit c # ps) = markers ps"
| "markers (Marker d # ps) = d # markers ps"

fun cited :: "out list \<Rightarrow> (jsstring \<times> nat) list" where
  "cited [] = []"
| "cited (Text c # os) = cited os"
| "cited (Placeholder sid n # os) = (sid, n) # cited os"

fun first_seen :: "'a list \<Rightarrow> 'a list" where
  "first_seen [] = []"
| "first_seen (x # xs) = x # first_seen (removeAll x xs)"

definition table_of :: "jsstring list \<Rightarrow> (jsstring \<times> nat) list" where
  "table_of ks = zip ks [1..<Suc (length ks)]"

definition numbering_inv :: "jsstring list \<Rightarrow> numbering \<Rightarrow> bool" where
  "numbering_inv ks st \<longleftrightarrow> distinct ks \<and> citationMap st = table_of ks \<and> citationNumber st = Suc (length ks)"

lemma set_first_seen [simp]: "set (first_seen xs) = set xs"
  by (induction xs rule: first_seen.induct) auto

lemma distinct_first_seen [simp]: "distinct (first_seen xs)"
  by (induction xs rule: first_seen.induct) auto

lemma table_of_snoc: "table_of (ks @ [k]) = table_of ks @ [(k, Suc (length ks))]"
proof -
  have "[1..<Suc (Suc (length ks))] = [1..<Suc (length ks)] @ [Suc (length ks)]"
    by simp
  then have "zip (ks @ [k]) [1..<Suc (Suc (length ks))] =
      zip ks [1..<Suc (length ks)] @ zip [k] [Suc (length ks)]"
    by (simp only: zip_append length_upt diff_Suc_1)
  then show ?thesis by (simp add: table_of_def del: upt_Suc)
qed

lemma map_fst_table_of [simp]: "map fst (table_of ks) = ks"
  by (simp add: table_of_def del: upt_Suc)

lemma fst_set_table_of [simp]: "fst ` set (table_of ks) = set ks"
  by (metis map_fst_table_of set_map)

lemma map_snd_table_of [simp]: "map snd (table_of ks) = [1..<Suc (length ks)]"
  by (simp add: table_of_def del: upt_Suc)

lemma update_new: "k \<notin> fst ` set al \<Longrightarrow> AList.update k v al = al @ [(k, v)]"
  by (induction al) auto

lemma map_of_table_of_pos: "map_of (table_of ks) k = Some n \<Longrightarrow> n \<noteq> 0"
  by (auto simp del: upt_Suc simp: table_of_def dest!: map_of_SomeD set_zip_rightD)

lemma map_of_table_of_None: "map_of (table_of ks) k = None \<longleftrightarrow> k \<notin> set ks"
  by (metis map_fst_table_of map_of_eq_None_iff set_map)

lemma map_of_table_of_append:
  "map_of (table_of ks) k = Some n \<Longrightarrow> map_of (table_of (ks @ ext)) k = Some n"
proof (induction ext rule: rev_induct)
  case Nil then show ?case by simp
next
  case (snoc x xs)
  then show ?case by (simp add: table_of_snoc flip: append_assoc)
qed

lemma cite_old:
  assumes "numbering_inv ks st" "sid \<in> set ks"
  shows "\<exists>n. cite sid st = (n, st) \<and> map_of (table_of ks) sid = Some n"
proof -
  from assms obtain n where n: "map_of (table_of ks) sid = Some n"
    using map_of_table_of_None [of ks sid] by (cases "map_of (table_of ks) sid") auto
  with assms map_of_table_of_pos [OF n] show ?thesis
    by (simp add: cite_def numbering_inv_def)
qed

lemma cite_new:
  assumes "numbering_inv ks st" "sid \<notin> set ks"
  shows "\<exists>st'. cite sid st = (Suc (length ks), st') \<and> numbering_inv (ks @ [sid]) st'"
  using assms map_of_table_of_None [of ks sid]
  by (simp add: cite_def numbering_inv_def table_of_snoc update_new)

lemma map_of_table_of_last:
  "distinct (ks @ [sid]) \<Longrightarrow> map_of (table_of (ks @ [sid])) sid = Some (Suc (length ks))"
  using map_of_table_of_None [of ks sid]
  by (auto simp: table_of_snoc map_add_Some_iff)

lemma number_pieces_inv:
  assumes "numbering_inv ks st" "number_pieces ps st = (os, st')"
  shows "\<exists>ks'. ks' = ks @ first_seen (filter (\<lambda>x. x \<notin> set ks) (map ((@) (js ''src_'')) (markers ps)))
        \<and> numbering_inv ks' st'
        \<and> map fst (cited os) = map ((@) (js ''src_'')) (markers ps)
        \<and> map (\<lambda>(sid, n). map_of (table_of ks') sid) (cited os) = map (\<lambda>(sid, n). Some n) (cited os)"
  using assms
proof (induction ps st arbitrary: ks os st' rule: number_pieces.induct)
  case (1 st)
  then show ?case by simp
next
  case (2 c ps st)
  from "2.prems"(2) obtain os1 where os1: "number_pieces ps st = (os1, st')" "os = Text c # os1"
    by (auto split: prod.splits)
  from "2.IH" [OF "2.prems"(1) os1(1)] os1(2) show ?case by simp
next
  case (3 srcNum ps st)
  let ?sid = "js ''src_'' @ srcNum"
  show ?case
  proof (cases "?sid \<in> set ks")
    case True
    with 3 cite_old [of ks st ?sid] obtain n where n: "cite ?sid st = (n, st)"
      "map_of (table_of ks) ?sid = Some n" by auto
    obtain os1 where os1: "number_pieces ps st = (os1, st')" "os = Placeholder ?sid n # os1"
      using "3.prems"(2) n by (auto simp: Let_def split: prod.splits)
    from "3.IH" [OF refl refl n(1) [symmetric] "3.prems"(1) os1(1)] n True os1 show ?thesis
      by (auto intro: map_of_table_of_append)
  next
    case False
    with 3 cite_new [of ks st ?sid] obtain st1 where n: "cite ?sid st = (Suc (length ks), st1)"
      "numbering_inv (ks @ [?sid]) st1" by auto
    obtain os1 where os1: "number_pieces ps st1 = (os1, st')" "os = Placeholder ?sid (Suc (length ks)) # os1"
      using "3.prems"(2) n by (auto simp: Let_def split: prod.splits)
    let ?ids = "map ((@) (js ''src_'')) (markers ps)"
    let ?K1 = "(ks @ [?sid]) @ first_seen (filter (\<lambda>x. x \<notin> set (ks @ [?sid])) ?ids)"
    let ?K = "ks @ first_seen (filter (\<lambda>x. x \<notin> set ks) (?sid # ?ids))"
    have f: "removeAll ?sid (filter (\<lambda>x. x \<notin> set ks) xs) = filter (\<lambda>x. x \<noteq> ?sid \<and> x \<notin> set ks) xs" for xs
      by (induction xs) auto
    have K: "?K = ?K1" using False by (simp add: f)
    from n(2) have d: "distinct (ks @ [?sid])" by (simp add: numbering_inv_def)
    have here: "map_of (table_of ?K1) ?sid = Some (Suc (length ks))"
      by (rule map_of_table_of_append [OF map_of_table_of_last [OF d]])
    from "3.IH" [OF refl refl n(1) [symmetric] n(2) os1(1)]
    have ih: "numbering_inv ?K1 st'" "map fst (cited os1) = ?ids"
      "map (\<lambda>(sid, n). map_of (table_of ?K1) sid) (cited os1) = map (\<lambda>(sid, n). Some n) (cited os1)"
      by simp_all
    have "markers (Marker srcNum # ps) = srcNum # markers ps" by simp
    then have m: "map ((@) (js ''src_'')) (markers (Marker srcNum # ps)) = ?sid # ?ids" by simp
    show ?thesis
      unfolding m K using ih here by (simp add: os1(2))
  qed
qed

fun piece_text :: "piece \<Rightarrow> jsstring" where
  "piece_text (Lit c) = [c]"
| "piece_text (Marker d) = js ''[[Src:'' @ d @ js '']]''"

fun marker_ok :: "piece \<Rightarrow> bool" where
  "marker_ok (Lit c) = True"
| "marker_ok (Marker d) = (d \<noteq> [] \<and> list_all is_digit d)"

definition marker_free :: "jsstring \<Rightarrow> bool" where
  "marker_free text \<longleftrightarrow>
     \<not> (\<exists>pre d post. d \<noteq> [] \<and> list_all is_digit d \<and> text = pre @ js ''[[Src:'' @ d @ js '']]'' @ post)"

lemma match_marker_iff:
  "match_marker s = Some (d, rest) \<longleftrightarrow>
     d \<noteq> [] \<and> list_all is_digit d \<and> s = js ''[[Src:'' @ d @ js '']]'' @ rest"
proof
  assume "match_marker s = Some (d, rest)"
  then obtain r where r: "s = js ''[[Src:'' @ r" and d: "d = takeWhile is_digit r" "d \<noteq> []"
    and rest: "dropWhile is_digit r = js '']]'' @ rest"
    by (auto simp: match_marker_def Let_def strip_prefix_iff split: option.splits if_splits)
  have "r = takeWhile is_digit r @ dropWhile is_digit r" by simp
  with d rest have "r = d @ js '']]'' @ rest" by simp
  moreover have "list_all is_digit d" unfolding d(1) list_all_iff by (auto dest: set_takeWhileD)
  ultimately show "d \<noteq> [] \<and> list_all is_digit d \<and> s = js ''[[Src:'' @ d @ js '']]'' @ rest"
    using r d(2) by simp
next
  assume a: "d \<noteq> [] \<and> list_all is_digit d \<and> s = js ''[[Src:'' @ d @ js '']]'' @ rest"
  have nd: "\<not> is_digit (0x5D)" by (simp add: is_digit_def)
  from a have all: "\<forall>x\<in>set d. is_digit x" by (simp add: list_all_iff)
  have t: "takeWhile is_digit (d @ js '']]'' @ rest) = d"
    using all nd by (simp add: takeWhile_append2 js_def)
  have dr: "dropWhile is_digit (d @ js '']]'' @ rest) = js '']]'' @ rest"
    using all nd by (simp add: dropWhile_append2 js_def)
  from a show "match_marker s = Some (d, rest)"
    by (simp add: match_marker_def t dr)
qed

lemma pieces_text [simp]: "concat (map piece_text (pieces s)) = s"
proof (induction s rule: pieces.induct)
  case 1
  then show ?case by simp
next
  case (2 c cs)
  show ?case
  proof (cases "match_marker (c # cs)")
    case None
    with 2 show ?thesis by simp
  next
    case (Some a)
    then obtain d rest where m: "match_marker (c # cs) = Some (d, rest)" by (cases a) auto
    from m have e: "c # cs = js ''[[Src:'' @ d @ js '']]'' @ rest" by (simp add: match_marker_iff)
    from m have p: "pieces (c # cs) = Marker d # pieces rest" by simp
    show ?thesis unfolding p using 2(2) [OF m refl] e by simp
  qed
qed

lemma pieces_marker_ok: "list_all marker_ok (pieces s)"
proof (induction s rule: pieces.induct)
  case 1
  then show ?case by simp
next
  case (2 c cs)
  show ?case
  proof (cases "match_marker (c # cs)")
    case None
    with 2 show ?thesis by simp
  next
    case (Some a)
    then obtain d rest where m: "match_marker (c # cs) = Some (d, rest)" by (cases a) auto
    from m have e: "d \<noteq> [] \<and> list_all is_digit d" by (simp add: match_marker_iff)
    from m have p: "pieces (c # cs) = Marker d # pieces rest" by simp
    show ?thesis unfolding p using 2(2) [OF m refl] e by simp
  qed
qed

lemma markers_found:
  assumes "d \<noteq> []" "list_all is_digit d"
  shows "markers (pieces (pre @ js ''[[Src:'' @ d @ js '']]'' @ post)) \<noteq> []"
proof (induction pre)
  case Nil
  have m: "match_marker (js ''[[Src:'' @ d @ js '']]'' @ post) = Some (d, post)"
    using assms by (simp add: match_marker_iff)
  obtain c cs where c: "js ''[[Src:'' @ d @ js '']]'' @ post = c # cs" by (simp add: js_def)
  show ?case using m unfolding append_Nil c by simp
next
  case (Cons c pre)
  then show ?case by (simp split: option.splits)
qed

lemma marker_free_iff: "marker_free s \<longleftrightarrow> markers (pieces s) = []"
proof
  assume "markers (pieces s) = []"
  then show "marker_free s" unfolding marker_free_def using markers_found by blast
next
  assume mf: "marker_free s"
  have *: "list_all marker_ok ps \<Longrightarrow> markers ps \<noteq> [] \<Longrightarrow>
      \<exists>pre d post. d \<noteq> [] \<and> list_all is_digit d \<and> concat (map piece_text ps) = pre @ js ''[[Src:'' @ d @ js '']]'' @ post" for ps
  proof (induction ps rule: markers.induct)
    case 1
    then show ?case by simp
  next
    case (2 c ps)
    then obtain pre d post where "d \<noteq> []" "list_all is_digit d"
      "concat (map piece_text ps) = pre @ js ''[[Src:'' @ d @ js '']]'' @ post" by auto
    then have "d \<noteq> [] \<and> list_all is_digit d \<and> concat (map piece_text (Lit c # ps)) = (c # pre) @ js ''[[Src:'' @ d @ js '']]'' @ post"
      by simp
    then show ?case by blast
  next
    case (3 d ps)
    then have "d \<noteq> [] \<and> list_all is_digit d \<and> concat (map piece_text (Marker d # ps)) = [] @ js ''[[Src:'' @ d @ js '']]'' @ concat (map piece_text ps)"
      by simp
    then show ?case by blast
  qed
  show "markers (pieces s) = []"
  proof (rule ccontr)
    assume "markers (pieces s) \<noteq> []"
    from * [OF pieces_marker_ok this] mf show False
      by (simp add: marker_free_def)
  qed
qed


definition cited_ids :: "jsstring \<Rightarrow> jsstring list" where
  "cited_ids content = map ((@) (js ''src_'')) (markers (pieces content))"

definition citations :: "jsstring \<Rightarrow> (jsstring \<times> nat) list" where
  "citations content = cited (placeholders content)"

fun origin :: "out \<Rightarrow> piece" where
  "origin (Text c) = Lit c"
| "origin (Placeholder sourceId displayNum) = Marker (drop 4 sourceId)"

lemma number_pieces_origin:
  "map origin (fst (number_pieces ps st)) = ps"
proof (induction ps st rule: number_pieces.induct)
  case (1 st)
  show ?case by simp
next
  case (2 c ps st)
  obtain os st' where r: "number_pieces ps st = (os, st')" by (cases "number_pieces ps st")
  with 2 show ?case by simp
next
  case (3 srcNum ps st)
  obtain n st1 where c: "cite (js ''src_'' @ srcNum) st = (n, st1)"
    by (cases "cite (js ''src_'' @ srcNum) st")
  obtain os st' where r: "number_pieces ps st1 = (os, st')" by (cases "number_pieces ps st1")
  have d: "drop 4 (js ''src_'' @ srcNum) = srcNum" by (simp add: js_def)
  from "3.IH" [OF refl refl c [symmetric]] r have "map origin os = ps" by simp
  with c r d show ?case by (simp add: Let_def)
qed

lemma numbering_inv_fresh: "numbering_inv [] fresh_numbering"
  by (simp add: numbering_inv_def fresh_numbering_def table_of_def)

lemma parser_numbering:
  "citationTable content = table_of (first_seen (cited_ids content))
   \<and> map fst (citations content) = cited_ids content
   \<and> map (\<lambda>(sid, n). map_of (citationTable content) sid) (citations content) =
       map (\<lambda>(sid, n). Some n) (citations content)"
proof -
  obtain os st' where r: "number_pieces (pieces content) fresh_numbering = (os, st')"
    by (cases "number_pieces (pieces content) fresh_numbering")
  from number_pieces_inv [OF numbering_inv_fresh r] r show ?thesis
    by (simp add: citationTable_def citations_def placeholders_def cited_ids_def numbering_inv_def)
qed

lemma length_first_seen: "length (first_seen xs) = card (set xs)"
  by (metis distinct_card distinct_first_seen set_first_seen)

lemma marker_free_unchanged:
  assumes "marker_free content"
  shows "processCitationTags content sectionKey = content \<and> citationTable content = []"
proof -
  from assms have m: "markers (pieces content) = []" by (simp add: marker_free_iff)
  have lit: "markers ps = [] \<Longrightarrow>
      number_pieces ps st = (map (\<lambda>p. case p of Lit c \<Rightarrow> Text c | Marker d \<Rightarrow> Text 0) ps, st)
      \<and> concat (map (emit sectionKey) (map (\<lambda>p. case p of Lit c \<Rightarrow> Text c | Marker d \<Rightarrow> Text 0) ps))
          = concat (map piece_text ps)" for ps st
    by (induction ps rule: markers.induct) auto
  from lit [OF m, of fresh_numbering] show ?thesis
    by (simp add: processCitationTags_def placeholders_def citationTable_def fresh_numbering_def)
qed

text \<open>
  C6. The parser is a total function on strings (the scan terminates, and no step of it
  can fail). The pieces of the scan, put together again, are the input; a piece taken as a
  marker is exactly \<^verbatim>\<open>[[Src:\<close>, one or more digits, \<^verbatim>\<open>]]\<close>; every other code unit
  is a literal piece, and what is put out corresponds piece by piece to the input, a
  literal as itself. A text in which the exact form occurs nowhere comes back unchanged,
  with an empty numbering table.
\<close>

theorem C6_parser_total_passthrough:
  "concat (map piece_text (pieces content)) = content
   \<and> list_all marker_ok (pieces content)
   \<and> map origin (placeholders content) = pieces content
   \<and> (marker_free content \<longrightarrow>
         processCitationTags content sectionKey = content \<and> citationTable content = [])"
  using marker_free_unchanged [of content sectionKey]
  by (simp add: pieces_marker_ok placeholders_def number_pieces_origin)

theorem C6_witness:
  "marker_free (js ''[[Src:abc]] [[Src:12] [Src:3]] [[src:4]]'')
   \<and> processCitationTags (js ''[[Src:abc]] [[Src:12] [Src:3]] [[src:4]]'') (js ''overview'')
       = js ''[[Src:abc]] [[Src:12] [Src:3]] [[src:4]]''
   \<and> citationTable (js ''[[Src:abc]] [[Src:12] [Src:3]] [[src:4]]'') = []"
proof -
  have mf: "marker_free (js ''[[Src:abc]] [[Src:12] [Src:3]] [[src:4]]'')"
    by (simp add: marker_free_iff match_marker_def js_def is_digit_def)
  with C6_parser_total_passthrough [of "js ''[[Src:abc]] [[Src:12] [Src:3]] [[src:4]]''" "js ''overview''"]
  show ?thesis by blast
qed

section \<open>Texts written as gaps and markers\<close>

definition marker :: "jsstring \<Rightarrow> jsstring" where
  "marker d = js ''[[Src:'' @ d @ js '']]''"

definition digits :: "jsstring \<Rightarrow> bool" where
  "digits d \<longleftrightarrow> d \<noteq> [] \<and> list_all is_digit d"

fun doc :: "(jsstring \<times> jsstring) list \<Rightarrow> jsstring \<Rightarrow> jsstring" where
  "doc [] tail = tail"
| "doc ((gap, d) # segs) tail = gap @ marker d @ doc segs tail"

definition well_formed :: "(jsstring \<times> jsstring) list \<Rightarrow> jsstring \<Rightarrow> bool" where
  "well_formed segs tail \<longleftrightarrow>
     list_all (\<lambda>(gap, d). marker_free gap \<and> digits d) segs \<and> marker_free tail"

definition display_number :: "jsstring list \<Rightarrow> jsstring \<Rightarrow> nat" where
  "display_number ds d = Suc (length (takeWhile (\<lambda>x. x \<noteq> d) (first_seen ds)))"

fun numbered_doc :: "jsstring \<Rightarrow> jsstring list \<Rightarrow> (jsstring \<times> jsstring) list \<Rightarrow> jsstring \<Rightarrow> jsstring" where
  "numbered_doc sectionKey ds [] tail = tail"
| "numbered_doc sectionKey ds ((gap, d) # segs) tail =
     gap @ citation_span sectionKey (js ''src_'' @ d) (display_number ds d) @
     numbered_doc sectionKey ds segs tail"

lemma marker_free_Nil [simp]: "marker_free []"
  by (simp add: marker_free_def js_def)

lemma marker_free_tl: "marker_free (c # g) \<Longrightarrow> marker_free g"
  unfolding marker_free_def
proof (rule notI, elim exE conjE)
  fix pre d post
  assume n: "\<not> (\<exists>pre d post. d \<noteq> [] \<and> list_all is_digit d \<and> c # g = pre @ js ''[[Src:'' @ d @ js '']]'' @ post)"
    and d: "d \<noteq> []" "list_all is_digit d" and g: "g = pre @ js ''[[Src:'' @ d @ js '']]'' @ post"
  from g have "c # g = (c # pre) @ js ''[[Src:'' @ d @ js '']]'' @ post" by simp
  with n d show False by blast
qed

lemma marker_free_Cons:
  assumes g: "marker_free g" and m: "match_marker (c # g @ rest) = None"
  shows "marker_free (c # g)"
  unfolding marker_free_def
proof (rule notI, elim exE conjE)
  fix pre d post
  assume d: "d \<noteq> []" "list_all is_digit d" and e: "c # g = pre @ js ''[[Src:'' @ d @ js '']]'' @ post"
  show False
  proof (cases pre)
    case Nil
    with e have "c # g @ rest = js ''[[Src:'' @ d @ js '']]'' @ (post @ rest)" by simp
    with d have "match_marker (c # g @ rest) = Some (d, post @ rest)"
      by (simp only: match_marker_iff) simp
    with m show False by simp
  next
    case (Cons a pre')
    with e have "g = pre' @ js ''[[Src:'' @ d @ js '']]'' @ post" by simp
    with g d show False unfolding marker_free_def by blast
  qed
qed

lemma digit_not_bracket: "is_digit c \<Longrightarrow> c \<noteq> 0x5B"
  by (auto simp: is_digit_def)

lemma no_match_before_marker:
  assumes g: "marker_free (c # g)" and d: "digits d"
  shows "match_marker (c # g @ marker d @ rest) = None"
proof (rule ccontr)
  assume "match_marker (c # g @ marker d @ rest) \<noteq> None"
  then obtain e r where "match_marker (c # g @ marker d @ rest) = Some (e, r)" by auto
  then have e: "e \<noteq> []" "list_all is_digit e"
    and eq: "(c # g) @ (marker d @ rest) = (js ''[[Src:'' @ e @ js '']]'') @ r"
    by (simp_all add: match_marker_iff)
  let ?K2 = "js ''Src:'' @ e @ js '']]''"
  have k2: "0x5B \<notin> set ?K2" using e(2) by (auto simp: js_def list_all_iff dest: digit_not_bracket)
  have K: "js ''[[Src:'' @ e @ js '']]'' = 0x5B # 0x5B # ?K2" by (simp add: js_def)
  have M: "marker d @ rest = 0x5B # 0x5B # (js ''Src:'' @ d @ js '']]'' @ rest)"
    by (simp add: marker_def js_def)
  from eq obtain w where w: "c # g = (js ''[[Src:'' @ e @ js '']]'') @ w \<and> w @ marker d @ rest = r
      \<or> (c # g) @ w = js ''[[Src:'' @ e @ js '']]'' \<and> marker d @ rest = w @ r"
    unfolding append_eq_append_conv2 by blast
  show False
  proof (cases "c # g = (js ''[[Src:'' @ e @ js '']]'') @ w \<and> w @ marker d @ rest = r")
    case True
    then have "c # g = [] @ js ''[[Src:'' @ e @ js '']]'' @ w" by simp
    with g e show False unfolding marker_free_def by blast
  next
    case False
    with w have 1: "(c # g) @ w = 0x5B # 0x5B # ?K2" and 2: "marker d @ rest = w @ r"
      unfolding K by blast+
    show False
    proof (cases w)
      case Nil
      with 1 have "c # g = 0x5B # 0x5B # ?K2" by simp
      with K have "c # g = [] @ js ''[[Src:'' @ e @ js '']]'' @ []" by simp
      with g e show False unfolding marker_free_def by blast
    next
      case (Cons a w')
      with 2 M have a: "a = 0x5B" by simp
      show False
      proof (cases g)
        case Nil
        with 1 \<open>w = a # w'\<close> have w': "w' = ?K2" by simp
        with 2 M \<open>w = a # w'\<close> have "0x5B # (js ''Src:'' @ d @ js '']]'' @ rest) = ?K2 @ r" by simp
        then show False by (simp add: js_def)
      next
        case (Cons b g')
        with 1 have "g' @ w = ?K2" by simp
        then have "set w \<subseteq> set ?K2" by (metis set_append sup_ge2)
        with \<open>w = a # w'\<close> a k2 show False by auto
      qed
    qed
  qed
qed

lemma pieces_gap_marker:
  assumes "marker_free gap" "digits d"
  shows "pieces (gap @ marker d @ rest) = map Lit gap @ Marker d # pieces rest"
  using assms(1)
proof (induction gap)
  case Nil
  from assms(2) have "match_marker (marker d @ rest) = Some (d, rest)"
    by (simp add: match_marker_iff marker_def digits_def)
  moreover obtain c cs where "marker d @ rest = c # cs" by (simp add: marker_def js_def)
  ultimately show ?case by simp
next
  case (Cons c g)
  from no_match_before_marker [OF Cons.prems assms(2)]
  have "match_marker (c # g @ marker d @ rest) = None" .
  moreover from Cons.prems have "marker_free g" by (rule marker_free_tl)
  ultimately show ?case using Cons.IH by simp
qed

lemma no_markers_lits: "markers ps = [] \<Longrightarrow> ps = map Lit (concat (map piece_text ps))"
  by (induction ps rule: markers.induct) auto

lemma pieces_marker_free: "marker_free s \<Longrightarrow> pieces s = map Lit s"
  using no_markers_lits [of "pieces s"] by (simp add: marker_free_iff)

fun doc_pieces :: "(jsstring \<times> jsstring) list \<Rightarrow> jsstring \<Rightarrow> piece list" where
  "doc_pieces [] tail = map Lit tail"
| "doc_pieces ((gap, d) # segs) tail = map Lit gap @ Marker d # doc_pieces segs tail"

lemma pieces_doc: "well_formed segs tail \<Longrightarrow> pieces (doc segs tail) = doc_pieces segs tail"
proof (induction segs)
  case Nil
  then show ?case by (simp add: well_formed_def pieces_marker_free)
next
  case (Cons a segs)
  obtain gap d where a: "a = (gap, d)" by (cases a)
  with Cons.prems have h: "marker_free gap" "digits d" "well_formed segs tail"
    by (simp_all add: well_formed_def)
  from pieces_gap_marker [OF h(1,2)] Cons.IH [OF h(3)] a show ?case by simp
qed

lemma markers_doc_pieces: "markers (doc_pieces segs tail) = map snd segs"
proof (induction segs)
  case Nil
  show ?case by (induction tail) auto
next
  case (Cons a segs)
  obtain gap d where a: "a = (gap, d)" by (cases a)
  have "markers (map Lit gap @ ps) = markers ps" for ps by (induction gap) auto
  with Cons a show ?case by simp
qed

lemma every_text_is_doc: "\<exists>segs tail. well_formed segs tail \<and> content = doc segs tail"
proof (induction content rule: pieces.induct)
  case 1
  have "well_formed [] [] \<and> [] = doc [] []" by (simp add: well_formed_def)
  then show ?case by blast
next
  case (2 c cs)
  show ?case
  proof (cases "match_marker (c # cs)")
    case (Some a)
    obtain d rest where a: "a = (d, rest)" by (cases a)
    with Some have m: "match_marker (c # cs) = Some (d, rest)" by simp
    from 2(2) [OF m refl] obtain segs tail where s: "well_formed segs tail" "rest = doc segs tail" by blast
    from m have "digits d" "c # cs = marker d @ rest"
      by (simp_all add: match_marker_iff digits_def marker_def)
    with s have "well_formed (([], d) # segs) tail \<and> c # cs = doc (([], d) # segs) tail"
      by (simp add: well_formed_def)
    then show ?thesis by blast
  next
    case None
    from 2(1) [OF None] obtain segs tail where s: "well_formed segs tail" "cs = doc segs tail" by blast
    show ?thesis
    proof (cases segs)
      case Nil
      with s have t: "marker_free tail" "cs = tail" by (simp_all add: well_formed_def)
      from None t have "match_marker (c # tail @ []) = None" by simp
      from marker_free_Cons [OF t(1) this] have "marker_free (c # tail)" .
      with t have "well_formed [] (c # tail) \<and> c # cs = doc [] (c # tail)" by (simp add: well_formed_def)
      then show ?thesis by blast
    next
      case (Cons b segs')
      obtain gap d where b: "b = (gap, d)" by (cases b)
      with Cons s have g: "marker_free gap" "digits d" "well_formed segs' tail"
        and cs: "cs = gap @ marker d @ doc segs' tail"
        by (simp_all add: well_formed_def)
      from None cs have "match_marker (c # gap @ (marker d @ doc segs' tail)) = None" by simp
      from marker_free_Cons [OF g(1) this] have "marker_free (c # gap)" .
      with g cs have "well_formed ((c # gap, d) # segs') tail \<and> c # cs = doc ((c # gap, d) # segs') tail"
        by (simp add: well_formed_def)
      then show ?thesis by blast
    qed
  qed
qed

lemma map_of_zip_upt:
  "k \<in> set K \<Longrightarrow>
   map_of (zip K [m..<m + length K]) k = Some (m + length (takeWhile (\<lambda>x. x \<noteq> k) K))"
proof (induction K arbitrary: m)
  case Nil
  then show ?case by simp
next
  case (Cons a K)
  have u: "[m..<m + length (a # K)] = m # [Suc m..<Suc m + length K]"
    by (simp add: upt_conv_Cons del: upt_Suc)
  show ?case
  proof (cases "a = k")
    case True
    then show ?thesis unfolding u by simp
  next
    case False
    with Cons.prems have "k \<in> set K" by simp
    from Cons.IH [OF this, of "Suc m"] False show ?thesis unfolding u by simp
  qed
qed

lemma map_of_table_of_index:
  "k \<in> set K \<Longrightarrow> map_of (table_of K) k = Some (Suc (length (takeWhile (\<lambda>x. x \<noteq> k) K)))"
  using map_of_zip_upt [of k K 1] by (simp add: table_of_def del: upt_Suc)

lemma first_seen_map: "inj f \<Longrightarrow> first_seen (map f xs) = map f (first_seen xs)"
proof (induction xs rule: first_seen.induct)
  case 1
  then show ?case by simp
next
  case (2 x xs)
  from 2(2) have "removeAll (f x) (map f xs) = map f (removeAll x xs)"
    by (simp add: map_removeAll_inj)
  with 2 show ?case by simp
qed

lemma inj_src: "inj ((@) (js ''src_''))"
  by (rule injI) simp

lemma length_takeWhile_map:
  "inj f \<Longrightarrow> length (takeWhile (\<lambda>x. x \<noteq> f d) (map f K)) = length (takeWhile (\<lambda>x. x \<noteq> d) K)"
  by (induction K) (auto dest: injD)

lemma table_number:
  assumes "d \<in> set ds"
  shows "map_of (table_of (first_seen (map ((@) (js ''src_'')) ds))) (js ''src_'' @ d)
         = Some (display_number ds d)"
proof -
  let ?f = "(@) (js ''src_'')"
  have K: "first_seen (map ?f ds) = map ?f (first_seen ds)" by (rule first_seen_map [OF inj_src])
  from assms have "?f d \<in> set (map ?f (first_seen ds))" by simp
  from map_of_table_of_index [OF this] show ?thesis
    unfolding K display_number_def by (simp add: length_takeWhile_map [OF inj_src])
qed

fun numbered_out :: "(jsstring \<times> nat) list \<Rightarrow> piece \<Rightarrow> out" where
  "numbered_out T (Lit c) = Text c"
| "numbered_out T (Marker d) =
     Placeholder (js ''src_'' @ d) (case map_of T (js ''src_'' @ d) of Some n \<Rightarrow> n | None \<Rightarrow> 0)"

lemma outs_form:
  "map origin os = ps \<Longrightarrow>
   map fst (cited os) = map ((@) (js ''src_'')) (markers ps) \<Longrightarrow>
   map (\<lambda>(sid, n). map_of T sid) (cited os) = map (\<lambda>(sid, n). Some n) (cited os) \<Longrightarrow>
   os = map (numbered_out T) ps"
proof (induction os arbitrary: ps)
  case Nil
  then show ?case by simp
next
  case (Cons o1 os)
  show ?case
  proof (cases o1)
    case (Text c)
    with Cons.prems obtain ps' where ps: "ps = Lit c # ps'" "map origin os = ps'" by auto
    with Cons.prems Text have "os = map (numbered_out T) ps'" by (intro Cons.IH) simp_all
    with ps Text show ?thesis by simp
  next
    case (Placeholder sid n)
    with Cons.prems(1) obtain ps' where ps: "ps = Marker (drop 4 sid) # ps'" "map origin os = ps'" by auto
    from Cons.prems(2) Placeholder ps have sid: "sid = js ''src_'' @ drop 4 sid"
      and f: "map fst (cited os) = map ((@) (js ''src_'')) (markers ps')" by simp_all
    from Cons.prems(3) Placeholder have n: "map_of T sid = Some n"
      and m: "map (\<lambda>(sid, n). map_of T sid) (cited os) = map (\<lambda>(sid, n). Some n) (cited os)"
      by simp_all
    from ps(2) f m have os: "os = map (numbered_out T) ps'" by (rule Cons.IH)
    have "numbered_out T (Marker (drop 4 sid))
        = Placeholder (js ''src_'' @ drop 4 sid)
            (case map_of T (js ''src_'' @ drop 4 sid) of Some n \<Rightarrow> n | None \<Rightarrow> 0)"
      by simp
    also have "\<dots> = Placeholder sid (case map_of T sid of Some n \<Rightarrow> n | None \<Rightarrow> 0)"
      using sid by simp
    also have "\<dots> = Placeholder sid n" by (simp add: n)
    finally have "numbered_out T (Marker (drop 4 sid)) = o1" unfolding Placeholder .
    then have "o1 # os = numbered_out T (Marker (drop 4 sid)) # map (numbered_out T) ps'"
      using os by simp
    then show ?thesis unfolding ps(1) by simp
  qed
qed

lemma placeholders_form:
  "placeholders content = map (numbered_out (citationTable content)) (pieces content)"
proof -
  have o: "map origin (placeholders content) = pieces content"
    by (simp add: placeholders_def number_pieces_origin)
  from parser_numbering [of content]
  have "map fst (citations content) = cited_ids content"
    and "map (\<lambda>(sid, n). map_of (citationTable content) sid) (citations content)
          = map (\<lambda>(sid, n). Some n) (citations content)"
    by blast+
  then have f: "map fst (cited (placeholders content)) = map ((@) (js ''src_'')) (markers (pieces content))"
    and m: "map (\<lambda>(sid, n). map_of (citationTable content) sid) (cited (placeholders content))
          = map (\<lambda>(sid, n). Some n) (cited (placeholders content))"
    unfolding citations_def cited_ids_def by blast+
  from o f m show ?thesis by (rule outs_form)
qed

lemma emit_doc_pieces:
  assumes T: "\<And>d. d \<in> set ds \<Longrightarrow> map_of T (js ''src_'' @ d) = Some (display_number ds d)"
  shows "set (map snd segs) \<subseteq> set ds \<Longrightarrow>
    concat (map (emit sectionKey) (map (numbered_out T) (doc_pieces segs tail)))
      = numbered_doc sectionKey ds segs tail"
proof (induction segs)
  case Nil
  show ?case by (induction tail) auto
next
  case (Cons a segs)
  obtain gap d where a: "a = (gap, d)" by (cases a)
  have lit: "concat (map (emit sectionKey) (map (numbered_out T) (map Lit gap))) = gap"
    by (induction gap) auto
  from Cons.prems a have d: "d \<in> set ds" and s: "set (map snd segs) \<subseteq> set ds" by simp_all
  have "concat (map (emit sectionKey) (map (numbered_out T) (doc_pieces (a # segs) tail)))
      = concat (map (emit sectionKey) (map (numbered_out T) (map Lit gap)))
        @ emit sectionKey (numbered_out T (Marker d))
        @ concat (map (emit sectionKey) (map (numbered_out T) (doc_pieces segs tail)))"
    unfolding a by (simp del: map_map)
  also have "\<dots> = gap @ citation_span sectionKey (js ''src_'' @ d) (display_number ds d)
        @ numbered_doc sectionKey ds segs tail"
    unfolding lit Cons.IH [OF s] using T [OF d] by simp
  finally show ?case unfolding a by simp
qed

lemma processCitationTags_doc:
  assumes "well_formed segs tail"
  shows "processCitationTags (doc segs tail) sectionKey = numbered_doc sectionKey (map snd segs) segs tail"
    and "citationTable (doc segs tail) =
          zip (map ((@) (js ''src_'')) (first_seen (map snd segs))) [1..<Suc (card (set (map snd segs)))]"
proof -
  let ?c = "doc segs tail" and ?ds = "map snd segs" and ?f = "(@) (js ''src_'')"
  have p: "pieces ?c = doc_pieces segs tail" by (rule pieces_doc [OF assms])
  have ids: "cited_ids ?c = map ?f ?ds" by (simp add: cited_ids_def p markers_doc_pieces)
  from parser_numbering [of ?c] have t: "citationTable ?c = table_of (first_seen (map ?f ?ds))"
    unfolding ids by blast
  have T: "map_of (citationTable ?c) (js ''src_'' @ d) = Some (display_number ?ds d)"
    if "d \<in> set ?ds" for d
    unfolding t using that by (rule table_number)
  have "processCitationTags ?c sectionKey
      = concat (map (emit sectionKey) (map (numbered_out (citationTable ?c)) (doc_pieces segs tail)))"
    by (simp add: processCitationTags_def placeholders_form p)
  also have "\<dots> = numbered_doc sectionKey ?ds segs tail"
    by (rule emit_doc_pieces [OF T]) simp_all
  finally show "processCitationTags ?c sectionKey = numbered_doc sectionKey ?ds segs tail" .
  have "length (first_seen ?ds) = card (set ?ds)" by (rule length_first_seen)
  then show "citationTable ?c = zip (map ?f (first_seen ?ds)) [1..<Suc (card (set ?ds))]"
    unfolding t first_seen_map [OF inj_src] table_of_def by (simp del: upt_Suc)
qed

lemma takeWhile_positions:
  "distinct K \<Longrightarrow> map (\<lambda>d. length (takeWhile (\<lambda>x. x \<noteq> d) K)) K = [0..<length K]"
proof (induction K rule: rev_induct)
  case Nil
  then show ?case by simp
next
  case (snoc a K)
  then have d: "distinct K" "a \<notin> set K" by simp_all
  have 1: "length (takeWhile (\<lambda>x. x \<noteq> d) (K @ [a])) = length (takeWhile (\<lambda>x. x \<noteq> d) K)"
    if "d \<in> set K" for d
  proof -
    from that have "takeWhile (\<lambda>x. x \<noteq> d) (K @ [a]) = takeWhile (\<lambda>x. x \<noteq> d) K"
      by (intro takeWhile_append1 [where x = d]) simp_all
    then show ?thesis by simp
  qed
  have "takeWhile (\<lambda>x. x \<noteq> a) (K @ [a]) = K @ takeWhile (\<lambda>x. x \<noteq> a) [a]"
    by (rule takeWhile_append2) (use d(2) in auto)
  then have 2: "length (takeWhile (\<lambda>x. x \<noteq> a) (K @ [a])) = length K" by simp
  have "map (\<lambda>d. length (takeWhile (\<lambda>x. x \<noteq> d) (K @ [a]))) K
      = map (\<lambda>d. length (takeWhile (\<lambda>x. x \<noteq> d) K)) K"
    by (rule map_cong) (simp_all add: 1)
  with snoc.IH [OF d(1)] 2 show ?case by simp
qed

lemma display_numbers:
  "map (display_number ds) (first_seen ds) = [1..<Suc (card (set ds))]"
proof -
  have "map (display_number ds) (first_seen ds)
      = map Suc (map (\<lambda>d. length (takeWhile (\<lambda>x. x \<noteq> d) (first_seen ds))) (first_seen ds))"
    by (simp add: display_number_def)
  also have "\<dots> = map Suc [0..<length (first_seen ds)]"
    by (simp only: takeWhile_positions [OF distinct_first_seen])
  also have "\<dots> = [1..<Suc (card (set ds))]"
    by (simp add: map_Suc_upt length_first_seen del: upt_Suc)
  finally show ?thesis .
qed

lemma display_number_first: "ds \<noteq> [] \<Longrightarrow> display_number ds (hd ds) = 1"
  by (cases ds) (simp_all add: display_number_def)

lemma length_takeWhile_neq: "d \<in> set K \<Longrightarrow> length (takeWhile (\<lambda>x. x \<noteq> d) K) < length K"
  by (induction K) auto

lemma display_number_range:
  assumes "d \<in> set ds"
  shows "1 \<le> display_number ds d \<and> display_number ds d \<le> card (set ds)"
proof -
  from assms have "d \<in> set (first_seen ds)" by simp
  then have "length (takeWhile (\<lambda>x. x \<noteq> d) (first_seen ds)) < length (first_seen ds)"
    by (rule length_takeWhile_neq)
  then show ?thesis by (simp add: display_number_def length_first_seen)
qed

text \<open>
  C1. Every text is a sequence of gaps and markers \<^verbatim>\<open>[[Src:\<close>digits\<^verbatim>\<open>]]\<close>, the gaps and
  the tail free of markers. For a text so written \<^verbatim>\<open>processCitationTags\<close> returns the
  gaps and the tail unchanged and, in place of every marker, the placeholder of its source
  id with its display number; the display number of a source id is one more than the
  number of different source ids that have a first marker before its own first marker.
  So the source ids, in the order of their first markers, have the numbers 1, 2, ..., K,
  K the number of different source ids; the first marker has number 1; and a later
  marker of a source id has the number of the first. The table the call has built at its
  end holds exactly these pairs, in that order.
\<close>

theorem C1_first_seen_numbering:
  "(\<exists>segs tail. well_formed segs tail \<and> content = doc segs tail)
   \<and> (well_formed segs tail \<longrightarrow>
        processCitationTags (doc segs tail) sectionKey
          = numbered_doc sectionKey (map snd segs) segs tail
        \<and> citationTable (doc segs tail)
          = zip (map ((@) (js ''src_'')) (first_seen (map snd segs)))
                [1..<Suc (card (set (map snd segs)))])
   \<and> map (display_number ds) (first_seen ds) = [1..<Suc (card (set ds))]
   \<and> (ds \<noteq> [] \<longrightarrow> display_number ds (hd ds) = 1)"
  using every_text_is_doc [of content] processCitationTags_doc(1) [of segs tail sectionKey]
    processCitationTags_doc(2) [of segs tail] display_numbers [of ds] display_number_first [of ds]
  by blast

theorem C1_witness:
  "well_formed [([], js ''5''), (js '' and '', js ''2''), (js '', again '', js ''5'')] (js ''.'')
   \<and> processCitationTags (js ''[[Src:5]] and [[Src:2]], again [[Src:5]].'') (js ''overview'')
       = js ''<span class=\"citation\" data-source-id=\"src_5\" data-section=\"overview\" data-num=\"1\">1</span> and <span class=\"citation\" data-source-id=\"src_2\" data-section=\"overview\" data-num=\"2\">2</span>, again <span class=\"citation\" data-source-id=\"src_5\" data-section=\"overview\" data-num=\"1\">1</span>.''
   \<and> citationTable (js ''[[Src:5]] and [[Src:2]], again [[Src:5]].'')
       = [(js ''src_5'', 1), (js ''src_2'', 2)]"
proof -
  let ?segs = "[([], js ''5''), (js '' and '', js ''2''), (js '', again '', js ''5'')]"
  have wf: "well_formed ?segs (js ''.'')"
    by (simp add: well_formed_def digits_def marker_free_iff match_marker_def js_def is_digit_def)
  have d: "doc ?segs (js ''.'') = js ''[[Src:5]] and [[Src:2]], again [[Src:5]].''"
    by (simp add: marker_def js_def)
  have n: "numbered_doc (js ''overview'') (map snd ?segs) ?segs (js ''.'')
      = js ''<span class=\"citation\" data-source-id=\"src_5\" data-section=\"overview\" data-num=\"1\">1</span> and <span class=\"citation\" data-source-id=\"src_2\" data-section=\"overview\" data-num=\"2\">2</span>, again <span class=\"citation\" data-source-id=\"src_5\" data-section=\"overview\" data-num=\"1\">1</span>.''"
    by (simp add: display_number_def citation_span_def js_def)
  have t: "zip (map ((@) (js ''src_'')) (first_seen (map snd ?segs)))
                [1..<Suc (card (set (map snd ?segs)))] = [(js ''src_5'', 1), (js ''src_2'', 2)]"
    by (simp add: js_def card_insert_if upt_rec)
  from C1_first_seen_numbering [of "[]" ?segs "js ''.''" "js ''overview''" "[]"] wf
  have "processCitationTags (doc ?segs (js ''.'')) (js ''overview'')
          = numbered_doc (js ''overview'') (map snd ?segs) ?segs (js ''.'')"
    and "citationTable (doc ?segs (js ''.''))
          = zip (map ((@) (js ''src_'')) (first_seen (map snd ?segs)))
                [1..<Suc (card (set (map snd ?segs)))]"
    by blast+
  then have "processCitationTags (js ''[[Src:5]] and [[Src:2]], again [[Src:5]].'') (js ''overview'')
       = js ''<span class=\"citation\" data-source-id=\"src_5\" data-section=\"overview\" data-num=\"1\">1</span> and <span class=\"citation\" data-source-id=\"src_2\" data-section=\"overview\" data-num=\"2\">2</span>, again <span class=\"citation\" data-source-id=\"src_5\" data-section=\"overview\" data-num=\"1\">1</span>.''"
    and "citationTable (js ''[[Src:5]] and [[Src:2]], again [[Src:5]].'')
       = [(js ''src_5'', 1), (js ''src_2'', 2)]"
    unfolding d n t by blast+
  with wf show ?thesis by blast
qed

section \<open>Numbering is scoped to one section\<close>

lemma section_bodies_lookup:
  "distinct keys \<Longrightarrow> key \<in> set keys \<Longrightarrow> sections key = Some sec \<Longrightarrow>
   map_of (section_bodies sections keys) key = Some (section_body key sec)"
proof (induction keys)
  case Nil
  then show ?case by simp
next
  case (Cons k keys)
  show ?case
  proof (cases "k = key")
    case True
    with Cons.prems show ?thesis by simp
  next
    case False
    with Cons show ?thesis by (simp split: option.splits)
  qed
qed

lemma section_body_doc:
  assumes "cited_text sec = Some (doc segs tail)" "well_formed segs tail"
  shows "section_body key sec = renderMarkdown (numbered_doc key (map snd segs) segs tail)"
proof -
  from assms(1) have "or_else (cited_text sec) [] = doc segs tail" by (simp add: or_else_def)
  with processCitationTags_doc(1) [OF assms(2), of key] show ?thesis by (simp add: section_body_def)
qed

text \<open>
  C7. The counter and the table are local variables of one call. In the loop over the
  sections the body of a section is the rendering of its own text with the markers
  numbered from that text alone: whatever the other sections cite, the first marker of a
  section has number 1, and a source id cited in two sections has in each the display
  number it has among that section's own markers, between 1 and the number of source ids
  that section cites.
\<close>

theorem C7_section_scoped_numbering:
  "distinct keys \<and> k1 \<in> set keys \<and> k2 \<in> set keys
   \<and> sections k1 = Some sec1 \<and> cited_text sec1 = Some (doc segs1 tail1) \<and> well_formed segs1 tail1
   \<and> sections k2 = Some sec2 \<and> cited_text sec2 = Some (doc segs2 tail2) \<and> well_formed segs2 tail2
   \<longrightarrow>
     map_of (section_bodies sections keys) k1
       = Some (renderMarkdown (numbered_doc k1 (map snd segs1) segs1 tail1))
     \<and> map_of (section_bodies sections keys) k2
       = Some (renderMarkdown (numbered_doc k2 (map snd segs2) segs2 tail2))
     \<and> (segs1 \<noteq> [] \<longrightarrow> display_number (map snd segs1) (snd (hd segs1)) = 1)
     \<and> (segs2 \<noteq> [] \<longrightarrow> display_number (map snd segs2) (snd (hd segs2)) = 1)
     \<and> (d \<in> set (map snd segs1) \<and> d \<in> set (map snd segs2) \<longrightarrow>
          1 \<le> display_number (map snd segs1) d
          \<and> display_number (map snd segs1) d \<le> card (set (map snd segs1))
          \<and> 1 \<le> display_number (map snd segs2) d
          \<and> display_number (map snd segs2) d \<le> card (set (map snd segs2)))"
proof (intro impI, elim conjE)
  assume k: "distinct keys" "k1 \<in> set keys" "k2 \<in> set keys"
    and s1: "sections k1 = Some sec1" "cited_text sec1 = Some (doc segs1 tail1)" "well_formed segs1 tail1"
    and s2: "sections k2 = Some sec2" "cited_text sec2 = Some (doc segs2 tail2)" "well_formed segs2 tail2"
  have a: "map_of (section_bodies sections keys) k1
       = Some (renderMarkdown (numbered_doc k1 (map snd segs1) segs1 tail1))"
    using section_bodies_lookup [of keys k1 sections sec1] k s1(1) section_body_doc [OF s1(2,3)] by simp
  have b: "map_of (section_bodies sections keys) k2
       = Some (renderMarkdown (numbered_doc k2 (map snd segs2) segs2 tail2))"
    using section_bodies_lookup [of keys k2 sections sec2] k s2(1) section_body_doc [OF s2(2,3)] by simp
  have c: "segs \<noteq> [] \<longrightarrow> display_number (map snd segs) (snd (hd segs)) = 1" for segs :: "(jsstring \<times> jsstring) list"
    using display_number_first [of "map snd segs"] by (cases segs) auto
  from a b c [of segs1] c [of segs2] display_number_range [of d "map snd segs1"]
    display_number_range [of d "map snd segs2"]
  show "map_of (section_bodies sections keys) k1
       = Some (renderMarkdown (numbered_doc k1 (map snd segs1) segs1 tail1))
     \<and> map_of (section_bodies sections keys) k2
       = Some (renderMarkdown (numbered_doc k2 (map snd segs2) segs2 tail2))
     \<and> (segs1 \<noteq> [] \<longrightarrow> display_number (map snd segs1) (snd (hd segs1)) = 1)
     \<and> (segs2 \<noteq> [] \<longrightarrow> display_number (map snd segs2) (snd (hd segs2)) = 1)
     \<and> (d \<in> set (map snd segs1) \<and> d \<in> set (map snd segs2) \<longrightarrow>
          1 \<le> display_number (map snd segs1) d
          \<and> display_number (map snd segs1) d \<le> card (set (map snd segs1))
          \<and> 1 \<le> display_number (map snd segs2) d
          \<and> display_number (map snd segs2) d \<le> card (set (map snd segs2)))"
    by blast
qed

lemmas render_defs = renderMarkdown_def inline_markup_def paragraphs_def block_of_def starts_with_def
  trim_def is_ws_def replace_all_def line_rule_def emphasis_def ul_wrap_def numbered_item_def
  table_block_def table_header_def table_separator_def table_row_def render_table_def cells_def
  is_sep_char_def rest_of_line_def is_LT_def is_digit_def li_item_def with_newline_def js_def
  Let_def li_items.simps table_rows.simps

definition overview_section :: report_section where
  "overview_section = \<lparr>cited_text = Some (js ''Revenue grew [[Src:7]].''), sources = None\<rparr>"

definition metrics_section :: report_section where
  "metrics_section = \<lparr>cited_text = Some (js ''Debt [[Src:3]] and margin [[Src:7]].''), sources = None\<rparr>"

definition two_sections :: "jsstring \<rightharpoonup> report_section" where
  "two_sections = [js ''overview'' \<mapsto> overview_section, js ''metrics'' \<mapsto> metrics_section]"

theorem C7_witness:
  "distinct sectionOrder \<and> js ''overview'' \<in> set sectionOrder \<and> js ''metrics'' \<in> set sectionOrder
   \<and> two_sections (js ''overview'') = Some overview_section
   \<and> cited_text overview_section = Some (doc [(js ''Revenue grew '', js ''7'')] (js ''.''))
   \<and> well_formed [(js ''Revenue grew '', js ''7'')] (js ''.'')
   \<and> two_sections (js ''metrics'') = Some metrics_section
   \<and> cited_text metrics_section = Some (doc [(js ''Debt '', js ''3''), (js '' and margin '', js ''7'')] (js ''.''))
   \<and> well_formed [(js ''Debt '', js ''3''), (js '' and margin '', js ''7'')] (js ''.'')
   \<and> map_of (section_bodies two_sections sectionOrder) (js ''overview'')
       = Some (renderMarkdown (js ''Revenue grew <span class=\"citation\" data-source-id=\"src_7\" data-section=\"overview\" data-num=\"1\">1</span>.''))
   \<and> map_of (section_bodies two_sections sectionOrder) (js ''metrics'')
       = Some (renderMarkdown (js ''Debt <span class=\"citation\" data-source-id=\"src_3\" data-section=\"metrics\" data-num=\"1\">1</span> and margin <span class=\"citation\" data-source-id=\"src_7\" data-section=\"metrics\" data-num=\"2\">2</span>.''))"
proof -
  let ?s1 = "[(js ''Revenue grew '', js ''7'')]"
  let ?s2 = "[(js ''Debt '', js ''3''), (js '' and margin '', js ''7'')]"
  have h: "distinct sectionOrder \<and> js ''overview'' \<in> set sectionOrder \<and> js ''metrics'' \<in> set sectionOrder
     \<and> two_sections (js ''overview'') = Some overview_section
     \<and> cited_text overview_section = Some (doc ?s1 (js ''.''))
     \<and> well_formed ?s1 (js ''.'')
     \<and> two_sections (js ''metrics'') = Some metrics_section
     \<and> cited_text metrics_section = Some (doc ?s2 (js ''.''))
     \<and> well_formed ?s2 (js ''.'')"
    by (simp add: sectionOrder_def two_sections_def overview_section_def metrics_section_def
        well_formed_def digits_def marker_def marker_free_iff match_marker_def js_def is_digit_def)
  have n1: "numbered_doc (js ''overview'') (map snd ?s1) ?s1 (js ''.'')
      = js ''Revenue grew <span class=\"citation\" data-source-id=\"src_7\" data-section=\"overview\" data-num=\"1\">1</span>.''"
    by (simp add: display_number_def citation_span_def js_def)
  have n2: "numbered_doc (js ''metrics'') (map snd ?s2) ?s2 (js ''.'')
      = js ''Debt <span class=\"citation\" data-source-id=\"src_3\" data-section=\"metrics\" data-num=\"1\">1</span> and margin <span class=\"citation\" data-source-id=\"src_7\" data-section=\"metrics\" data-num=\"2\">2</span>.''"
    by (simp add: display_number_def citation_span_def js_def)
  from C7_section_scoped_numbering [of sectionOrder "js ''overview''" "js ''metrics''" two_sections
      overview_section ?s1 "js ''.''" metrics_section ?s2 "js ''.''" "js ''7''"] h
  have "map_of (section_bodies two_sections sectionOrder) (js ''overview'')
       = Some (renderMarkdown (numbered_doc (js ''overview'') (map snd ?s1) ?s1 (js ''.'')))"
    and "map_of (section_bodies two_sections sectionOrder) (js ''metrics'')
       = Some (renderMarkdown (numbered_doc (js ''metrics'') (map snd ?s2) ?s2 (js ''.'')))"
    by blast+
  then have "map_of (section_bodies two_sections sectionOrder) (js ''overview'')
       = Some (renderMarkdown (js ''Revenue grew <span class=\"citation\" data-source-id=\"src_7\" data-section=\"overview\" data-num=\"1\">1</span>.''))"
    and "map_of (section_bodies two_sections sectionOrder) (js ''metrics'')
       = Some (renderMarkdown (js ''Debt <span class=\"citation\" data-source-id=\"src_3\" data-section=\"metrics\" data-num=\"1\">1</span> and margin <span class=\"citation\" data-source-id=\"src_7\" data-section=\"metrics\" data-num=\"2\">2</span>.''))"
    unfolding n1 n2 by blast+
  with h show ?thesis by blast
qed

section \<open>Properties of the tooltip controller\<close>




definition example_geometry :: geometry where
  "example_geometry =
     \<lparr>rect_left = 200, rect_right = 212, rect_top = 100, tooltip_width = 320,
      tooltip_height = 180, innerWidth = 1280, innerHeight = 720\<rparr>"

definition example_data :: "jsstring \<rightharpoonup> report_section" where
  "example_data =
     [js ''overview'' \<mapsto>
        \<lparr>cited_text = Some (js ''Revenue grew [[Src:1]].''),
         sources = Some [js ''src_1'' \<mapsto>
           \<lparr>title = Some (js ''Annual Report 2024''), page_number = Some (js ''12''),
            raw_text = Some (js ''Revenue grew by 8 percent.'')\<rparr>]\<rparr>,
      js ''metrics'' \<mapsto> \<lparr>cited_text = Some (js ''Margin [[Src:4]].''), sources = None\<rparr>]"

definition hover :: event where
  "hover = MouseEnterCitation (js ''src_1'') (js ''overview'') example_geometry"

lemmas tooltip_defs = showTooltip_def pinTooltip_def startHideTimer_def cancelHideTimer_def
  hideTooltip_def timer_callback_def clearTimeout_def document_click_def lookup_source_def
  initial_state_def or_else_def

lemma lookup_example: "lookup_source example_data (js ''overview'') (js ''src_1'') =
  Some \<lparr>title = Some (js ''Annual Report 2024''), page_number = Some (js ''12''),
            raw_text = Some (js ''Revenue grew by 8 percent.'')\<rparr>"
  by (simp add: lookup_source_def example_data_def js_def)

lemma after_hover:
  "visible (step example_data hover initial_state) \<and> \<not> pinned (step example_data hover initial_state)
   \<and> pending (step example_data hover initial_state) = []
   \<and> next_timer (step example_data hover initial_state) = 1
   \<and> hideTimeout (step example_data hover initial_state) = None"
  by (simp add: hover_def showTooltip_def lookup_example Let_def cancelHideTimer_def initial_state_def)





text \<open>
  C5, as the code has it: \<^verbatim>\<open>hideTooltip\<close> does not touch the timer. After hover, leave
  and a click outside within the 300 ms the popover is hidden and the timer is still
  pending.
\<close>

theorem C5_counterexample:
  "\<not> visible (run example_data [hover, MouseLeaveCitation, ClickOutside] initial_state)
   \<and> pending (run example_data [hover, MouseLeaveCitation, ClickOutside] initial_state) = [(1, 300)]
   \<and> pending (run example_data [hover, MouseLeaveCitation, ClickOutside] initial_state) \<noteq> []"
  using after_hover by (simp add: startHideTimer_def document_click_def hideTooltip_def)

text \<open>
  C5, amended. A click on a citation while the popover is visible leaves it visible and
  pins it. While it is pinned a leave changes nothing: no timer is started. A click
  outside the popover and the citations hides and unpins the popover and clears the
  current source and section, from any state; it leaves the pending timers and the
  variable \<^verbatim>\<open>hideTimeout\<close> as they are, and a timer that fires later finds the popover
  hidden and keeps it so.
\<close>

theorem C5_pin_and_dismiss:
  "(visible st \<longrightarrow>
      visible (step sectionData ClickCitation st) \<and> pinned (step sectionData ClickCitation st))
   \<and> (pinned st \<longrightarrow>
        step sectionData MouseLeaveCitation st = st \<and> step sectionData MouseLeaveTooltip st = st)
   \<and> \<not> visible (step sectionData ClickOutside st)
   \<and> \<not> pinned (step sectionData ClickOutside st)
   \<and> currentSourceId (step sectionData ClickOutside st) = None
   \<and> currentSectionKey (step sectionData ClickOutside st) = None
   \<and> pending (step sectionData ClickOutside st) = pending st
   \<and> hideTimeout (step sectionData ClickOutside st) = hideTimeout st
   \<and> \<not> visible (step sectionData (TimerFires t) (step sectionData ClickOutside st))"
  by (auto simp: pinTooltip_def document_click_def hideTooltip_def startHideTimer_def
      cancelHideTimer_def clearTimeout_def timer_callback_def split: option.splits)

theorem C5_witness:
  "visible (step example_data hover initial_state)
   \<and> pinned (step example_data ClickCitation (step example_data hover initial_state))
   \<and> visible (step example_data ClickCitation (step example_data hover initial_state))
   \<and> step example_data MouseLeaveCitation
        (step example_data ClickCitation (step example_data hover initial_state))
       = step example_data ClickCitation (step example_data hover initial_state)
   \<and> \<not> visible (step example_data ClickOutside
        (step example_data ClickCitation (step example_data hover initial_state)))"
proof -
  have v: "visible (step example_data hover initial_state)" using after_hover by simp
  from C5_pin_and_dismiss [of "step example_data hover initial_state" example_data 1] v
  have p: "visible (step example_data ClickCitation (step example_data hover initial_state))
      \<and> pinned (step example_data ClickCitation (step example_data hover initial_state))"
    by blast
  from C5_pin_and_dismiss [of "step example_data ClickCitation (step example_data hover initial_state)" example_data 1] p
  have "step example_data MouseLeaveCitation
        (step example_data ClickCitation (step example_data hover initial_state))
       = step example_data ClickCitation (step example_data hover initial_state)
     \<and> \<not> visible (step example_data ClickOutside
        (step example_data ClickCitation (step example_data hover initial_state)))"
    by blast
  with v p show ?thesis by blast
qed

text \<open>
  C8. Entering a citation whose source is not found (the section is missing, it has no
  sources, or the source id is not among them) while the popover is hidden leaves it
  hidden and appends one warning to the console. The lookup is by optional chaining and
  the handler has no failing step. (The handler still records the source id and section
  key it was called with, and clears the tracked timer.)
\<close>

theorem C8_missing_source:
  "lookup_source sectionData sectionKey sourceId = None \<and> \<not> visible st \<longrightarrow>
     \<not> visible (step sectionData (MouseEnterCitation sourceId sectionKey g) st)
     \<and> console (step sectionData (MouseEnterCitation sourceId sectionKey g) st)
         = console st @ [SourceNotFound sourceId sectionKey]
     \<and> pinned (step sectionData (MouseEnterCitation sourceId sectionKey g) st) = pinned st"
  by (auto simp: showTooltip_def Let_def cancelHideTimer_def clearTimeout_def split: option.splits)

theorem C8_witness:
  "lookup_source example_data (js ''metrics'') (js ''src_4'') = None
   \<and> \<not> visible initial_state
   \<and> \<not> visible (step example_data (MouseEnterCitation (js ''src_4'') (js ''metrics'') example_geometry) initial_state)
   \<and> console (step example_data (MouseEnterCitation (js ''src_4'') (js ''metrics'') example_geometry) initial_state)
       = [SourceNotFound (js ''src_4'') (js ''metrics'')]"
proof -
  have h: "lookup_source example_data (js ''metrics'') (js ''src_4'') = None \<and> \<not> visible initial_state
      \<and> console initial_state = []"
    by (simp add: lookup_source_def example_data_def js_def initial_state_def)
  from C8_missing_source [of example_data "js ''metrics''" "js ''src_4''" initial_state example_geometry] h
  show ?thesis by simp
qed







section \<open>Properties of the numbers\<close>

lemma round_half_even_close: "\<bar>of_int (round_half_even r) - r\<bar> \<le> 1 / 2"
proof -
  have "of_int \<lfloor>r\<rfloor> \<le> r" "r < of_int \<lfloor>r\<rfloor> + 1" by linarith+
  then show ?thesis by (auto simp: round_half_even_def Let_def)
qed

lemma round_half_even_int [simp]: "round_half_even (of_int z) = z"
  by (simp add: round_half_even_def)


lemma round_half_even_ge: "of_int z \<le> r \<Longrightarrow> z \<le> round_half_even r"
proof -
  assume "of_int z \<le> r"
  then have "z \<le> \<lfloor>r\<rfloor>" by (simp add: le_floor_iff)
  then show ?thesis by (simp add: round_half_even_def Let_def)
qed

lemma round_half_even_le: "r \<le> of_int z \<Longrightarrow> round_half_even r \<le> z"
proof -
  assume a: "r \<le> of_int z"
  show ?thesis
  proof (cases "r = of_int z")
    case True
    then show ?thesis by simp
  next
    case False
    with a have "r < of_int z" by simp
    then have "\<lfloor>r\<rfloor> < z" by (simp add: floor_less_iff)
    then show ?thesis by (simp add: round_half_even_def Let_def)
  qed
qed

lemma fl_not_NaN [simp]: "fl x \<noteq> NaN"
  by (simp add: fl_def Let_def)

lemma fl_binade:
  assumes "2 powr of_int L \<le> \<bar>x\<bar>" "\<bar>x\<bar> < 2 powr of_int (L + 1)" "- 1022 \<le> L"
  shows "fl x = (let v = of_int (round_half_even (x / 2 powr of_int (L - 52))) * 2 powr of_int (L - 52)
                 in if 2 ^ 1024 \<le> \<bar>v\<bar> then (if 0 < x then PosInf else NegInf) else Num v)"
proof -
  from assms(1) have pos: "0 < \<bar>x\<bar>" by (smt (verit) powr_gt_zero)
  then have nz: "x \<noteq> 0" by simp
  from assms(1,2) pos have "\<lfloor>log 2 \<bar>x\<bar>\<rfloor> = L" by (simp add: floor_log_eq_powr_iff)
  moreover from assms(3) have "max (L - 52) (- 1074) = L - 52" by simp
  ultimately show ?thesis using nz by (simp add: fl_def Let_def)
qed

text \<open>
  Up to \<open>2^42\<close> the doubles are no further apart than \<open>2^-10\<close>, and every integer is one of
  them: rounding moves a number by at most \<open>2^-11\<close> and never across an integer.
\<close>

lemma fl_grid:
  assumes "\<bar>x\<bar> \<le> 2 ^ 42"
  shows "\<exists>k\<ge>10. fl x = Num (of_int (round_half_even (x * 2 ^ k)) / 2 ^ k)"
proof (cases "x = 0")
  case True
  have "round_half_even 0 = 0" using round_half_even_int [of 0] by simp
  with True have "fl x = Num (of_int (round_half_even (x * 2 ^ 10)) / 2 ^ 10)"
    by (simp add: fl_def)
  then show ?thesis by blast
next
  case False
  define e where "e = max (\<lfloor>log 2 \<bar>x\<bar>\<rfloor> - 52) (- 1074)"
  define k where "k = nat (- e)"
  define v where "v = real_of_int (round_half_even (x * 2 ^ k)) / 2 ^ k"
  from False have pos: "0 < \<bar>x\<bar>" by simp
  have "\<bar>x\<bar> < 2 powr of_int 43"
  proof -
    have "(2::real) powr of_int 43 = 2 ^ 43" by (simp add: powr_int)
    with assms show ?thesis by simp
  qed
  with pos have "log 2 \<bar>x\<bar> < of_int 43" by (simp add: log_less_iff)
  then have "\<lfloor>log 2 \<bar>x\<bar>\<rfloor> < 43" by linarith
  then have e: "e \<le> - 10" unfolding e_def by simp
  then have k: "10 \<le> k" unfolding k_def by simp
  have p: "(2::real) powr of_int e = 1 / 2 ^ k"
    using e powr_int [of "2::real" e] by (simp add: k_def)
  have v': "of_int (round_half_even (x / 2 powr of_int e)) * 2 powr of_int e = v"
    unfolding p v_def by simp
  have c: "\<bar>v - x\<bar> \<le> 1 / 2"
  proof -
    have "v - x = (of_int (round_half_even (x * 2 ^ k)) - x * 2 ^ k) / 2 ^ k"
      unfolding v_def by (simp add: field_simps)
    then have "\<bar>v - x\<bar> = \<bar>of_int (round_half_even (x * 2 ^ k)) - x * 2 ^ k\<bar> / 2 ^ k"
      by (simp add: abs_divide)
    also have "\<dots> \<le> (1 / 2) / 2 ^ k"
      using round_half_even_close [of "x * 2 ^ k"] by (intro divide_right_mono) simp_all
    also have "\<dots> \<le> (1 / 2) / 1" by (intro divide_left_mono) simp_all
    finally show ?thesis by simp
  qed
  with assms have "\<bar>v\<bar> \<le> 2 ^ 42 + 1" by linarith
  also have "\<dots> < (2::real) ^ 1024" by simp
  finally have "\<not> 2 ^ 1024 \<le> \<bar>v\<bar>" by simp
  with False have "fl x = Num v"
    unfolding fl_def Let_def e_def [symmetric] v' by simp
  with k show ?thesis unfolding v_def by blast
qed

lemma fl_bounded:
  assumes "\<bar>x\<bar> \<le> 2 ^ 42"
  shows "\<exists>v. fl x = Num v \<and> \<bar>v - x\<bar> \<le> 1 / 2048
          \<and> (\<forall>n. real_of_int n \<le> x \<longrightarrow> real_of_int n \<le> v)
          \<and> (\<forall>n. x \<le> real_of_int n \<longrightarrow> v \<le> real_of_int n)"
proof -
  from fl_grid [OF assms] obtain k where k: "10 \<le> k"
    and f: "fl x = Num (of_int (round_half_even (x * 2 ^ k)) / 2 ^ k)" by blast
  define v where "v = real_of_int (round_half_even (x * 2 ^ k)) / 2 ^ k"
  have c: "\<bar>v - x\<bar> \<le> 1 / 2048"
  proof -
    have "v - x = (of_int (round_half_even (x * 2 ^ k)) - x * 2 ^ k) / 2 ^ k"
      unfolding v_def by (simp add: field_simps)
    then have "\<bar>v - x\<bar> = \<bar>of_int (round_half_even (x * 2 ^ k)) - x * 2 ^ k\<bar> / 2 ^ k"
      by (simp add: abs_divide)
    also have "\<dots> \<le> (1 / 2) / 2 ^ k"
      using round_half_even_close [of "x * 2 ^ k"] by (intro divide_right_mono) simp_all
    also have "\<dots> \<le> (1 / 2) / 2 ^ 10"
      using k by (intro divide_left_mono power_increasing) simp_all
    finally show ?thesis by simp
  qed
  have ge: "real_of_int n \<le> v" if "real_of_int n \<le> x" for n
  proof -
    from that have "real_of_int (n * 2 ^ k) \<le> x * 2 ^ k" by simp
    then have "n * 2 ^ k \<le> round_half_even (x * 2 ^ k)" by (rule round_half_even_ge)
    then have "real_of_int (n * 2 ^ k) \<le> real_of_int (round_half_even (x * 2 ^ k))"
      by (simp only: of_int_le_iff)
    then show ?thesis unfolding v_def by (simp add: field_simps)
  qed
  have le: "v \<le> real_of_int n" if "x \<le> real_of_int n" for n
  proof -
    from that have "x * 2 ^ k \<le> real_of_int (n * 2 ^ k)" by simp
    then have "round_half_even (x * 2 ^ k) \<le> n * 2 ^ k" by (rule round_half_even_le)
    then have "real_of_int (round_half_even (x * 2 ^ k)) \<le> real_of_int (n * 2 ^ k)"
      by (simp only: of_int_le_iff)
    then show ?thesis unfolding v_def by (simp add: field_simps)
  qed
  from f c ge le show ?thesis unfolding v_def by blast
qed

text \<open>A number \<open>n / 2^k\<close> with \<open>n\<close> below \<open>2^53\<close> is a double: rounding leaves it as it is.\<close>

lemma fl_dyadic:
  assumes "\<bar>n\<bar> < 2 ^ 53" "k \<le> 1022"
  shows "fl (real_of_int n / 2 ^ k) = Num (real_of_int n / 2 ^ k)"
proof (cases "n = 0")
  case True
  then show ?thesis by (simp add: fl_def)
next
  case False
  let ?y = "\<bar>real_of_int n\<bar>"
  let ?x = "real_of_int n / 2 ^ k"
  define L where "L = \<lfloor>log 2 ?y\<rfloor>"
  from False have y1: "1 \<le> ?y" by (simp flip: of_int_abs)
  then have y0: "0 < ?y" by linarith
  from y1 y0 have "0 \<le> log 2 ?y" by (simp add: zero_le_log_cancel_iff)
  then have L0: "0 \<le> L" unfolding L_def by simp
  from assms have y53: "?y < 2 ^ 53" by (simp flip: of_int_abs)
  then have "?y < 2 powr of_int 53" by (simp add: powr_int)
  with y0 have "log 2 ?y < of_int 53" by (simp add: log_less_iff)
  then have L1: "L \<le> 52" unfolding L_def by linarith
  from y0 have b: "2 powr of_int L \<le> ?y \<and> ?y < 2 powr of_int (L + 1)"
    using floor_log_eq_powr_iff [of ?y 2 L] unfolding L_def by simp
  have pk: "(2::real) powr of_int (L - int k) = 2 powr of_int L / 2 ^ k"
    "(2::real) powr of_int (L - int k + 1) = 2 powr of_int (L + 1) / 2 ^ k"
    by (simp_all add: powr_diff powr_add powr_realpow)
  have ax: "\<bar>?x\<bar> = ?y / 2 ^ k" by (simp add: abs_divide)
  from b have b': "2 powr of_int (L - int k) \<le> \<bar>?x\<bar>" "\<bar>?x\<bar> < 2 powr of_int (L - int k + 1)"
    unfolding pk ax by (simp_all add: divide_right_mono divide_strict_right_mono)
  from L0 assms(2) have r: "- 1022 \<le> L - int k" by simp
  define j where "j = nat (52 - L)"
  have p: "(2::real) powr of_int (L - int k - 52) = 1 / 2 ^ (k + j)"
  proof -
    have "L - int k - 52 = - int (k + j)" using L1 by (simp add: j_def)
    then have "real_of_int (L - int k - 52) = - real (k + j)" by (simp only: of_int_minus of_int_of_nat_eq)
    then have "(2::real) powr of_int (L - int k - 52) = 2 powr - real (k + j)" by (simp only:)
    also have "\<dots> = 1 / 2 powr real (k + j)" by (rule powr_minus_divide)
    also have "(2::real) powr real (k + j) = 2 ^ (k + j)" by (rule powr_realpow) simp
    finally show ?thesis .
  qed
  have q: "?x / (1 / 2 ^ (k + j)) = of_int (n * 2 ^ j)" by (simp add: power_add)
  have v: "real_of_int (n * 2 ^ j) * (1 / 2 ^ (k + j)) = ?x" by (simp add: power_add)
  have big: "\<not> (2::real) ^ 1024 \<le> \<bar>?x\<bar>"
  proof -
    have "?y / 2 ^ k \<le> ?y / 1" using y0 by (intro divide_left_mono) simp_all
    then have "\<bar>?x\<bar> \<le> ?y" unfolding ax by simp
    moreover have "(2::real) ^ 53 < 2 ^ 1024" by simp
    ultimately show ?thesis using y53 by linarith
  qed
  show ?thesis
    unfolding fl_binade [OF b' r] Let_def p q round_half_even_int v using big by simp
qed

lemma fl_int: "\<bar>n\<bar> < 2 ^ 53 \<Longrightarrow> fl (real_of_int n) = Num (real_of_int n)"
  using fl_dyadic [of n 0] by simp

lemma fl_numeral [simp]:
  "(numeral k :: int) < 2 ^ 53 \<Longrightarrow> fl (numeral k) = Num (numeral k)"
  "(numeral k :: int) < 2 ^ 53 \<Longrightarrow> fl (- numeral k) = Num (- numeral k)"
  "fl 0 = Num 0" "fl 1 = Num 1"
  using fl_int [of "numeral k"] fl_int [of "- numeral k"] fl_int [of 0] fl_int [of 1]
  by simp_all

lemma fl_half [simp]:
  "(numeral k :: int) < 2 ^ 53 \<Longrightarrow> fl (numeral k / 2) = Num (numeral k / 2)"
  "(numeral k :: int) < 2 ^ 53 \<Longrightarrow> fl (- (numeral k / 2)) = Num (- (numeral k / 2))"
  using fl_dyadic [of "numeral k" 1] fl_dyadic [of "- numeral k" 1]
  by simp_all

text \<open>
  From \<open>2^53\<close> to \<open>2^54\<close> the doubles are the even integers: an odd integer is a tie
  and goes to the neighbour whose half is even.
\<close>

lemma fl_even_53:
  assumes "2 ^ 52 \<le> m" "m < 2 ^ 53"
  shows "fl (real_of_int (2 * m)) = Num (real_of_int (2 * m))"
    and "even m \<Longrightarrow> fl (real_of_int (2 * m + 1)) = Num (real_of_int (2 * m))"
proof -
  have p53: "(2::real) powr of_int 53 = 2 ^ 53" "(2::real) powr of_int (53 + 1) = 2 ^ 54"
    "(2::real) powr of_int (53 - 52) = 2"
    using powr_int [of "2::real" 53] powr_int [of "2::real" 54] powr_int [of "2::real" 1] by simp_all
  from assms have m: "(2::real) ^ 52 \<le> real_of_int m" "real_of_int m < 2 ^ 53"
    by simp_all
  then have b: "2 powr of_int 53 \<le> \<bar>real_of_int (2 * m)\<bar>" "\<bar>real_of_int (2 * m)\<bar> < 2 powr of_int (53 + 1)"
    unfolding p53 by simp_all
  from m have b1: "2 powr of_int 53 \<le> \<bar>real_of_int (2 * m + 1)\<bar>" "\<bar>real_of_int (2 * m + 1)\<bar> < 2 powr of_int (53 + 1)"
    unfolding p53 by simp_all
  have big: "\<not> (2::real) ^ 1024 \<le> \<bar>real_of_int (2 * m)\<bar>"
  proof -
    have "(2::real) ^ 54 < 2 ^ 1024" by simp
    with b(2) show ?thesis unfolding p53 by linarith
  qed
  have h: "real_of_int (2 * m) / 2 = real_of_int m" by simp
  have l: "- 1022 \<le> (53::int)" by simp
  show "fl (real_of_int (2 * m)) = Num (real_of_int (2 * m))"
    unfolding fl_binade [OF b l] Let_def p53 h round_half_even_int using big by simp
  assume e: "even m"
  have f: "\<lfloor>real_of_int (2 * m + 1) / 2\<rfloor> = m" by (simp add: floor_eq_iff add_divide_distrib)
  have "real_of_int (2 * m + 1) / 2 - real_of_int m = 1 / 2" by (simp add: add_divide_distrib)
  with e f have r: "round_half_even (real_of_int (2 * m + 1) / 2) = m"
    by (simp add: round_half_even_def Let_def)
  show "fl (real_of_int (2 * m + 1)) = Num (real_of_int (2 * m))"
    unfolding fl_binade [OF b1 l] Let_def p53 r using big m assms by (simp; linarith)
qed

section \<open>Properties of the positioner\<close>

definition overflows_right :: "geometry \<Rightarrow> bool" where
  "overflows_right g \<longleftrightarrow>
     jgt (jadd (jadd (Num (rect_right g)) padding) (Num (tooltip_width g)))
         (jsub (Num (innerWidth g)) padding)"

definition overflows_bottom :: "geometry \<Rightarrow> bool" where
  "overflows_bottom g \<longleftrightarrow>
     jgt (jadd (Num (rect_top g)) (Num (tooltip_height g))) (jsub (Num (innerHeight g)) padding)"

definition on_screen :: "geometry \<Rightarrow> bool" where
  "on_screen g \<longleftrightarrow>
     \<bar>rect_left g\<bar> \<le> 2 ^ 40 \<and> \<bar>rect_right g\<bar> \<le> 2 ^ 40 \<and> \<bar>rect_top g\<bar> \<le> 2 ^ 40
     \<and> \<bar>tooltip_width g\<bar> \<le> 2 ^ 40 \<and> \<bar>tooltip_height g\<bar> \<le> 2 ^ 40
     \<and> \<bar>innerWidth g\<bar> \<le> 2 ^ 40 \<and> \<bar>innerHeight g\<bar> \<le> 2 ^ 40"

lemma jadd_Num_not_NaN: "a \<noteq> NaN \<Longrightarrow> jadd a (Num b) \<noteq> NaN"
  by (cases a) simp_all

lemma jsub_Num_not_NaN: "a \<noteq> NaN \<Longrightarrow> jsub a (Num b) \<noteq> NaN"
  by (cases a) (simp_all add: jsub_def)

lemma jmax_padding: "a \<noteq> NaN \<Longrightarrow> jmax padding a \<noteq> NaN \<and> \<not> jgt padding (jmax padding a)"
  by (cases a) (simp_all add: padding_def)

lemma jmax_Num: "jmax (Num a) (Num b) = Num (max a b)"
  by (simp add: max_def)

lemma positionTooltipNear_number:
  "fst (positionTooltipNear g) \<noteq> NaN \<and> \<not> jgt padding (fst (positionTooltipNear g))
   \<and> snd (positionTooltipNear g) \<noteq> NaN \<and> \<not> jgt padding (snd (positionTooltipNear g))"
proof -
  have a: "jadd (Num (rect_right g)) padding \<noteq> NaN" by (simp add: padding_def)
  have b: "jsub (jsub (Num (rect_left g)) (Num (tooltip_width g))) padding \<noteq> NaN"
    unfolding padding_def by (rule jsub_Num_not_NaN) (simp add: jsub_def)
  have c: "jsub (jsub (Num (innerHeight g)) (Num (tooltip_height g))) padding \<noteq> NaN"
    unfolding padding_def by (rule jsub_Num_not_NaN) (simp add: jsub_def)
  have d: "Num (rect_top g) \<noteq> NaN" by simp
  from a b c d show ?thesis
    by (simp add: positionTooltipNear_def Let_def jmax_padding)
qed

lemma positionTooltipNear_on_screen:
  assumes "on_screen g"
  shows "\<exists>x0 a b c x1 a' b' c' y1.
      jadd (Num (rect_right g)) padding = Num x0
    \<and> \<bar>x0 - (rect_right g + 12)\<bar> \<le> 1 / 2048 \<and> (0 \<le> rect_right g \<longrightarrow> 12 \<le> x0)
    \<and> (overflows_right g \<longleftrightarrow> b < a)
    \<and> \<bar>a - (x0 + tooltip_width g)\<bar> \<le> 1 / 2048 \<and> \<bar>b - (innerWidth g - 12)\<bar> \<le> 1 / 2048
    \<and> jsub (jsub (Num (rect_left g)) (Num (tooltip_width g))) padding = Num x1
    \<and> \<bar>c - (rect_left g - tooltip_width g)\<bar> \<le> 1 / 2048 \<and> \<bar>x1 - (c - 12)\<bar> \<le> 1 / 2048
    \<and> (tooltip_width g + 24 \<le> rect_left g \<longrightarrow> 12 \<le> x1)
    \<and> (rect_left g \<le> tooltip_width g + 24 \<longrightarrow> x1 \<le> 12)
    \<and> (overflows_bottom g \<longleftrightarrow> b' < a')
    \<and> \<bar>a' - (rect_top g + tooltip_height g)\<bar> \<le> 1 / 2048 \<and> \<bar>b' - (innerHeight g - 12)\<bar> \<le> 1 / 2048
    \<and> jsub (jsub (Num (innerHeight g)) (Num (tooltip_height g))) padding = Num y1
    \<and> \<bar>c' - (innerHeight g - tooltip_height g)\<bar> \<le> 1 / 2048 \<and> \<bar>y1 - (c' - 12)\<bar> \<le> 1 / 2048
    \<and> (tooltip_height g + 24 \<le> innerHeight g \<longrightarrow> 12 \<le> y1)
    \<and> (innerHeight g \<le> tooltip_height g + 24 \<longrightarrow> y1 \<le> 12)
    \<and> positionTooltipNear g =
        (Num (max 12 (if overflows_right g then x1 else x0)),
         Num (max 12 (if overflows_bottom g then y1 else rect_top g)))"
proof -
  from assms have r: "\<bar>rect_left g\<bar> \<le> 2 ^ 40" "\<bar>rect_right g\<bar> \<le> 2 ^ 40" "\<bar>rect_top g\<bar> \<le> 2 ^ 40"
    "\<bar>tooltip_width g\<bar> \<le> 2 ^ 40" "\<bar>tooltip_height g\<bar> \<le> 2 ^ 40"
    "\<bar>innerWidth g\<bar> \<le> 2 ^ 40" "\<bar>innerHeight g\<bar> \<le> 2 ^ 40"
    by (simp_all add: on_screen_def)
  have "\<bar>rect_right g + 12\<bar> \<le> 2 ^ 42" using r by (simp; linarith)
  from fl_bounded [OF this] obtain x0 where x0: "fl (rect_right g + 12) = Num x0"
    "\<bar>x0 - (rect_right g + 12)\<bar> \<le> 1 / 2048"
    "\<And>n. real_of_int n \<le> rect_right g + 12 \<Longrightarrow> real_of_int n \<le> x0" by blast
  have "\<bar>x0 + tooltip_width g\<bar> \<le> 2 ^ 42" using r x0(2) by (simp; linarith)
  from fl_bounded [OF this] obtain a where a: "fl (x0 + tooltip_width g) = Num a"
    "\<bar>a - (x0 + tooltip_width g)\<bar> \<le> 1 / 2048" by blast
  have "\<bar>innerWidth g - 12\<bar> \<le> 2 ^ 42" using r by (simp; linarith)
  from fl_bounded [OF this] obtain b where b: "fl (innerWidth g - 12) = Num b"
    "\<bar>b - (innerWidth g - 12)\<bar> \<le> 1 / 2048" by blast
  have "\<bar>rect_left g - tooltip_width g\<bar> \<le> 2 ^ 42" using r by (simp; linarith)
  from fl_bounded [OF this] obtain c where c: "fl (rect_left g - tooltip_width g) = Num c"
    "\<bar>c - (rect_left g - tooltip_width g)\<bar> \<le> 1 / 2048"
    "\<And>n. real_of_int n \<le> rect_left g - tooltip_width g \<Longrightarrow> real_of_int n \<le> c"
    "\<And>n. rect_left g - tooltip_width g \<le> real_of_int n \<Longrightarrow> c \<le> real_of_int n" by blast
  have "\<bar>c - 12\<bar> \<le> 2 ^ 42" using r c(2) by (simp; linarith)
  from fl_bounded [OF this] obtain x1 where x1: "fl (c - 12) = Num x1"
    "\<bar>x1 - (c - 12)\<bar> \<le> 1 / 2048"
    "\<And>n. real_of_int n \<le> c - 12 \<Longrightarrow> real_of_int n \<le> x1"
    "\<And>n. c - 12 \<le> real_of_int n \<Longrightarrow> x1 \<le> real_of_int n" by blast
  have "\<bar>rect_top g + tooltip_height g\<bar> \<le> 2 ^ 42" using r by (simp; linarith)
  from fl_bounded [OF this] obtain a' where a': "fl (rect_top g + tooltip_height g) = Num a'"
    "\<bar>a' - (rect_top g + tooltip_height g)\<bar> \<le> 1 / 2048" by blast
  have "\<bar>innerHeight g - 12\<bar> \<le> 2 ^ 42" using r by (simp; linarith)
  from fl_bounded [OF this] obtain b' where b': "fl (innerHeight g - 12) = Num b'"
    "\<bar>b' - (innerHeight g - 12)\<bar> \<le> 1 / 2048" by blast
  have "\<bar>innerHeight g - tooltip_height g\<bar> \<le> 2 ^ 42" using r by (simp; linarith)
  from fl_bounded [OF this] obtain c' where c': "fl (innerHeight g - tooltip_height g) = Num c'"
    "\<bar>c' - (innerHeight g - tooltip_height g)\<bar> \<le> 1 / 2048"
    "\<And>n. real_of_int n \<le> innerHeight g - tooltip_height g \<Longrightarrow> real_of_int n \<le> c'"
    "\<And>n. innerHeight g - tooltip_height g \<le> real_of_int n \<Longrightarrow> c' \<le> real_of_int n" by blast
  have "\<bar>c' - 12\<bar> \<le> 2 ^ 42" using r c'(2) by (simp; linarith)
  from fl_bounded [OF this] obtain y1 where y1: "fl (c' - 12) = Num y1"
    "\<bar>y1 - (c' - 12)\<bar> \<le> 1 / 2048"
    "\<And>n. real_of_int n \<le> c' - 12 \<Longrightarrow> real_of_int n \<le> y1"
    "\<And>n. c' - 12 \<le> real_of_int n \<Longrightarrow> y1 \<le> real_of_int n" by blast
  have e1: "jadd (Num (rect_right g)) padding = Num x0" by (simp add: padding_def x0(1))
  have e2: "jsub (jsub (Num (rect_left g)) (Num (tooltip_width g))) padding = Num x1"
    by (simp add: padding_def jsub_def c(1) x1(1))
  have e3: "jsub (jsub (Num (innerHeight g)) (Num (tooltip_height g))) padding = Num y1"
    by (simp add: padding_def jsub_def c'(1) y1(1))
  have e4: "jsub (Num (innerWidth g)) padding = Num b" by (simp add: padding_def jsub_def b(1))
  have e5: "jsub (Num (innerHeight g)) padding = Num b'" by (simp add: padding_def jsub_def b'(1))
  have o1: "overflows_right g \<longleftrightarrow> b < a" by (simp add: overflows_right_def e1 e4 a(1))
  have o2: "overflows_bottom g \<longleftrightarrow> b' < a'" by (simp add: overflows_bottom_def e5 a'(1))
  have p: "positionTooltipNear g =
        (Num (max 12 (if overflows_right g then x1 else x0)),
         Num (max 12 (if overflows_bottom g then y1 else rect_top g)))"
    by (simp add: positionTooltipNear_def Let_def padding_def jsub_def x0(1) a(1) b(1) c(1) x1(1)
        a'(1) b'(1) c'(1) y1(1) o1 o2 max_def)
  have t1: "0 \<le> rect_right g \<longrightarrow> 12 \<le> x0" using x0(3) [of 12] by simp
  have t2: "tooltip_width g + 24 \<le> rect_left g \<longrightarrow> 12 \<le> x1"
    using c(3) [of 24] x1(3) [of 12] by simp
  have t3: "rect_left g \<le> tooltip_width g + 24 \<longrightarrow> x1 \<le> 12"
    using c(4) [of 24] x1(4) [of 12] by simp
  have t4: "tooltip_height g + 24 \<le> innerHeight g \<longrightarrow> 12 \<le> y1"
    using c'(3) [of 24] y1(3) [of 12] by simp
  have t5: "innerHeight g \<le> tooltip_height g + 24 \<longrightarrow> y1 \<le> 12"
    using c'(4) [of 24] y1(4) [of 12] by simp
  from e1 x0(2) t1 o1 a(2) b(2) e2 c(2) x1(2) t2 t3 o2 a'(2) b'(2) e3 c'(2) y1(2) t4 t5 p
  show ?thesis by blast
qed

text \<open>
  Beyond \<open>2^53\<close> the sums of the function are no longer exact. Here the anchor ends at
  \<open>2^53\<close> and the popover is one pixel wide: placed right of the anchor it would end at
  \<open>2^53 + 13\<close>, one pixel beyond the padded edge \<open>2^53 + 12\<close>, but the sum rounds to
  \<open>2^53 + 12\<close>, the test fails, and the popover is not flipped.
\<close>

definition far_geometry :: geometry where
  "far_geometry =
     \<lparr>rect_left = 9007199254740980, rect_right = 9007199254740992, rect_top = 100,
      tooltip_width = 1, tooltip_height = 180,
      innerWidth = 9007199254741016, innerHeight = 720\<rparr>"

lemma far_geometry_not_flipped:
  "innerWidth far_geometry - 12 < rect_right far_geometry + 12 + tooltip_width far_geometry
   \<and> \<not> overflows_right far_geometry
   \<and> positionTooltipNear far_geometry = (Num 9007199254741004, Num 100)"
proof -
  have a: "fl 9007199254741004 = Num 9007199254741004"
    using fl_even_53(1) [of 4503599627370502] by simp
  have b: "fl 9007199254741005 = Num 9007199254741004"
    using fl_even_53(2) [of 4503599627370502] by simp
  show ?thesis
    by (simp add: far_geometry_def overflows_right_def positionTooltipNear_def padding_def
        jsub_def a b Let_def)
qed

definition tight_geometry :: geometry where
  "tight_geometry =
     \<lparr>rect_left = 5, rect_right = 20, rect_top = 100, tooltip_width = 320,
      tooltip_height = 180, innerWidth = 350, innerHeight = 800\<rparr>"

lemmas positioner_defs = positionTooltipNear_def overflows_right_def overflows_bottom_def
  on_screen_def padding_def jsub_def Let_def

text \<open>
  C9, as the code has it: an anchor at the left edge of a window 350 pixels wide, at 5 to
  20, and a popover 320 wide. Placed right of the anchor the popover would end at 352,
  beyond the window, so it is flipped, to \<open>5 - 320 - 12 = -327\<close>, and the last step moves
  it to the padding. The popover is inside the window, from 12 to 332, but its left edge
  is not left of the anchor: it covers the anchor.
\<close>

theorem C9_counterexample:
  "on_screen tight_geometry
   \<and> innerWidth tight_geometry < rect_right tight_geometry + 12 + tooltip_width tight_geometry
   \<and> overflows_right tight_geometry
   \<and> positionTooltipNear tight_geometry = (Num 12, Num 100)
   \<and> \<not> 12 < rect_left tight_geometry
   \<and> 12 + tooltip_width tight_geometry \<le> innerWidth tight_geometry - 12"
  by (simp add: tight_geometry_def positioner_defs)

text \<open>
  C9, amended. The padding is the constant 12. On every input each coordinate of the
  result is a number (never \<^verbatim>\<open>NaN\<close>) and not below the padding. For coordinates of
  magnitude up to \<open>2^40\<close> pixels, whole or fractional, both are finite, and up to the
  rounding of the double sums (less than \<open>1/1024\<close> of a pixel for a coordinate, \<open>1/256\<close>
  for a test) the function behaves as follows. The test for the right edge compares the
  end of the popover, placed right of the anchor by the padding, with the window's width
  less the padding: it holds if the popover would end beyond that line by more than the
  rounding and fails if it would end before it by more than the rounding. Where it fails (and the anchor's right edge is not negative) the
  popover is placed right of the anchor by the padding and ends inside the window. Where
  it holds the popover is flipped: if there is room left of the anchor for the popover and
  the padding on both sides, it lies wholly left of the anchor, the padding apart, and
  inside the window if the anchor's left edge is; if there is no such room the coordinate
  is the padding. The test for the bottom edge compares in the same way the end of the
  popover, placed at the anchor's top, with the window's height less the padding. Where
  it fails the
  vertical coordinate is the anchor's top, or the padding if that is larger, and a popover
  placed at the anchor's top ends inside the window. Where it holds the popover is moved
  up to end one padding above the bottom edge if the window is high enough for the
  popover and the padding on both sides, and to the padding otherwise.
\<close>

theorem C9_positioner:
  "padding = Num 12
   \<and> fst (positionTooltipNear g) \<noteq> NaN \<and> \<not> jgt padding (fst (positionTooltipNear g))
   \<and> snd (positionTooltipNear g) \<noteq> NaN \<and> \<not> jgt padding (snd (positionTooltipNear g))
   \<and> (on_screen g \<longrightarrow>
        (\<exists>x y. positionTooltipNear g = (Num x, Num y) \<and> 12 \<le> x \<and> 12 \<le> y
           \<and> (overflows_right g \<longrightarrow>
                 innerWidth g - 12 - 1 / 256 < rect_right g + 12 + tooltip_width g)
           \<and> (innerWidth g - 12 + 1 / 256 < rect_right g + 12 + tooltip_width g \<longrightarrow>
                 overflows_right g)
           \<and> (\<not> overflows_right g \<and> 0 \<le> rect_right g \<longrightarrow>
                 Num x = jadd (Num (rect_right g)) padding
                 \<and> \<bar>x - (rect_right g + 12)\<bar> \<le> 1 / 1024
                 \<and> x + tooltip_width g \<le> innerWidth g)
           \<and> (overflows_right g \<and> tooltip_width g + 24 \<le> rect_left g \<longrightarrow>
                 Num x = jsub (jsub (Num (rect_left g)) (Num (tooltip_width g))) padding
                 \<and> \<bar>x - (rect_left g - tooltip_width g - 12)\<bar> \<le> 1 / 1024
                 \<and> x + tooltip_width g < rect_left g
                 \<and> (rect_left g \<le> innerWidth g \<longrightarrow> x + tooltip_width g \<le> innerWidth g))
           \<and> (overflows_right g \<and> rect_left g \<le> tooltip_width g + 24 \<longrightarrow> x = 12)
           \<and> (overflows_bottom g \<longrightarrow>
                 innerHeight g - 12 - 1 / 256 < rect_top g + tooltip_height g)
           \<and> (innerHeight g - 12 + 1 / 256 < rect_top g + tooltip_height g \<longrightarrow>
                 overflows_bottom g)
           \<and> (\<not> overflows_bottom g \<longrightarrow>
                 y = max 12 (rect_top g)
                 \<and> (12 \<le> rect_top g \<longrightarrow> y + tooltip_height g \<le> innerHeight g))
           \<and> (overflows_bottom g \<and> tooltip_height g + 24 \<le> innerHeight g \<longrightarrow>
                 Num y = jsub (jsub (Num (innerHeight g)) (Num (tooltip_height g))) padding
                 \<and> \<bar>y - (innerHeight g - tooltip_height g - 12)\<bar> \<le> 1 / 1024
                 \<and> y + tooltip_height g \<le> innerHeight g)
           \<and> (overflows_bottom g \<and> innerHeight g \<le> tooltip_height g + 24 \<longrightarrow> y = 12)))"
proof (intro conjI impI)
  show "padding = Num 12" by (simp add: padding_def)
  show "fst (positionTooltipNear g) \<noteq> NaN" using positionTooltipNear_number [of g] by blast
  show "\<not> jgt padding (fst (positionTooltipNear g))" using positionTooltipNear_number [of g] by blast
  show "snd (positionTooltipNear g) \<noteq> NaN" using positionTooltipNear_number [of g] by blast
  show "\<not> jgt padding (snd (positionTooltipNear g))" using positionTooltipNear_number [of g] by blast
next
  assume "on_screen g"
  from positionTooltipNear_on_screen [OF this]
  obtain x0 a b c x1 a' b' c' y1 where
    e1: "jadd (Num (rect_right g)) padding = Num x0"
    and x0: "\<bar>x0 - (rect_right g + 12)\<bar> \<le> 1 / 2048" "0 \<le> rect_right g \<longrightarrow> 12 \<le> x0"
    and o1: "overflows_right g \<longleftrightarrow> b < a"
    and a: "\<bar>a - (x0 + tooltip_width g)\<bar> \<le> 1 / 2048"
    and b: "\<bar>b - (innerWidth g - 12)\<bar> \<le> 1 / 2048"
    and e2: "jsub (jsub (Num (rect_left g)) (Num (tooltip_width g))) padding = Num x1"
    and c: "\<bar>c - (rect_left g - tooltip_width g)\<bar> \<le> 1 / 2048"
    and x1: "\<bar>x1 - (c - 12)\<bar> \<le> 1 / 2048"
      "tooltip_width g + 24 \<le> rect_left g \<longrightarrow> 12 \<le> x1"
      "rect_left g \<le> tooltip_width g + 24 \<longrightarrow> x1 \<le> 12"
    and o2: "overflows_bottom g \<longleftrightarrow> b' < a'"
    and a': "\<bar>a' - (rect_top g + tooltip_height g)\<bar> \<le> 1 / 2048"
    and b': "\<bar>b' - (innerHeight g - 12)\<bar> \<le> 1 / 2048"
    and e3: "jsub (jsub (Num (innerHeight g)) (Num (tooltip_height g))) padding = Num y1"
    and c': "\<bar>c' - (innerHeight g - tooltip_height g)\<bar> \<le> 1 / 2048"
    and y1: "\<bar>y1 - (c' - 12)\<bar> \<le> 1 / 2048"
      "tooltip_height g + 24 \<le> innerHeight g \<longrightarrow> 12 \<le> y1"
      "innerHeight g \<le> tooltip_height g + 24 \<longrightarrow> y1 \<le> 12"
    and p: "positionTooltipNear g =
        (Num (max 12 (if overflows_right g then x1 else x0)),
         Num (max 12 (if overflows_bottom g then y1 else rect_top g)))"
    by blast
  define x where "x = max 12 (if overflows_right g then x1 else x0)"
  define y where "y = max 12 (if overflows_bottom g then y1 else rect_top g)"
  have r0: "positionTooltipNear g = (Num x, Num y) \<and> 12 \<le> x \<and> 12 \<le> y"
    using p by (simp add: x_def y_def)
  have r1: "overflows_right g \<longrightarrow>
      innerWidth g - 12 - 1 / 256 < rect_right g + 12 + tooltip_width g"
    using o1 x0(1) a b by linarith
  have r2: "innerWidth g - 12 + 1 / 256 < rect_right g + 12 + tooltip_width g \<longrightarrow>
      overflows_right g"
    using o1 x0(1) a b by linarith
  have r3: "\<not> overflows_right g \<and> 0 \<le> rect_right g \<longrightarrow>
      Num x = jadd (Num (rect_right g)) padding
      \<and> \<bar>x - (rect_right g + 12)\<bar> \<le> 1 / 1024
      \<and> x + tooltip_width g \<le> innerWidth g"
  proof (intro impI, elim conjE)
    assume h: "\<not> overflows_right g" "0 \<le> rect_right g"
    with x0(2) have x: "x = x0" by (simp add: x_def)
    from h o1 have ab: "a \<le> b" by simp
    have k1: "Num x = jadd (Num (rect_right g)) padding" using e1 x by simp
    have k2: "\<bar>x - (rect_right g + 12)\<bar> \<le> 1 / 1024" using x0(1) x by linarith
    have k3: "x + tooltip_width g \<le> innerWidth g" using a b ab x by linarith
    from k1 k2 k3
    show "Num x = jadd (Num (rect_right g)) padding
      \<and> \<bar>x - (rect_right g + 12)\<bar> \<le> 1 / 1024
      \<and> x + tooltip_width g \<le> innerWidth g"
      by blast
  qed
  have r4: "overflows_right g \<and> tooltip_width g + 24 \<le> rect_left g \<longrightarrow>
      Num x = jsub (jsub (Num (rect_left g)) (Num (tooltip_width g))) padding
      \<and> \<bar>x - (rect_left g - tooltip_width g - 12)\<bar> \<le> 1 / 1024
      \<and> x + tooltip_width g < rect_left g
      \<and> (rect_left g \<le> innerWidth g \<longrightarrow> x + tooltip_width g \<le> innerWidth g)"
  proof (intro impI, elim conjE)
    assume h: "overflows_right g" "tooltip_width g + 24 \<le> rect_left g"
    with x1(2) have x: "x = x1" by (simp add: x_def)
    have k1: "Num x = jsub (jsub (Num (rect_left g)) (Num (tooltip_width g))) padding"
      using e2 x by simp
    have k2: "\<bar>x - (rect_left g - tooltip_width g - 12)\<bar> \<le> 1 / 1024"
      using c x1(1) x by linarith
    have k3: "x + tooltip_width g < rect_left g" using k2 by linarith
    have k4: "rect_left g \<le> innerWidth g \<longrightarrow> x + tooltip_width g \<le> innerWidth g"
      using k3 by linarith
    from k1 k2 k3 k4
    show "Num x = jsub (jsub (Num (rect_left g)) (Num (tooltip_width g))) padding
      \<and> \<bar>x - (rect_left g - tooltip_width g - 12)\<bar> \<le> 1 / 1024
      \<and> x + tooltip_width g < rect_left g
      \<and> (rect_left g \<le> innerWidth g \<longrightarrow> x + tooltip_width g \<le> innerWidth g)"
      by blast
  qed
  have r5: "overflows_right g \<and> rect_left g \<le> tooltip_width g + 24 \<longrightarrow> x = 12"
    using x1(3) by (simp add: x_def)
  have r6: "overflows_bottom g \<longrightarrow>
      innerHeight g - 12 - 1 / 256 < rect_top g + tooltip_height g"
    using o2 a' b' by linarith
  have r7: "innerHeight g - 12 + 1 / 256 < rect_top g + tooltip_height g \<longrightarrow>
      overflows_bottom g"
    using o2 a' b' by linarith
  have r8: "\<not> overflows_bottom g \<longrightarrow>
      y = max 12 (rect_top g)
      \<and> (12 \<le> rect_top g \<longrightarrow> y + tooltip_height g \<le> innerHeight g)"
  proof (intro impI)
    assume h: "\<not> overflows_bottom g"
    then have y: "y = max 12 (rect_top g)" by (simp add: y_def)
    from h o2 have ab: "a' \<le> b'" by simp
    have k: "12 \<le> rect_top g \<longrightarrow> y + tooltip_height g \<le> innerHeight g"
      using a' b' ab y by (simp add: max_def; linarith)
    from y k show "y = max 12 (rect_top g)
      \<and> (12 \<le> rect_top g \<longrightarrow> y + tooltip_height g \<le> innerHeight g)"
      by blast
  qed
  have r9: "overflows_bottom g \<and> tooltip_height g + 24 \<le> innerHeight g \<longrightarrow>
      Num y = jsub (jsub (Num (innerHeight g)) (Num (tooltip_height g))) padding
      \<and> \<bar>y - (innerHeight g - tooltip_height g - 12)\<bar> \<le> 1 / 1024
      \<and> y + tooltip_height g \<le> innerHeight g"
  proof (intro impI, elim conjE)
    assume h: "overflows_bottom g" "tooltip_height g + 24 \<le> innerHeight g"
    with y1(2) have y: "y = y1" by (simp add: y_def)
    have k1: "Num y = jsub (jsub (Num (innerHeight g)) (Num (tooltip_height g))) padding"
      using e3 y by simp
    have k2: "\<bar>y - (innerHeight g - tooltip_height g - 12)\<bar> \<le> 1 / 1024"
      using c' y1(1) y by linarith
    have k3: "y + tooltip_height g \<le> innerHeight g" using k2 by linarith
    from k1 k2 k3
    show "Num y = jsub (jsub (Num (innerHeight g)) (Num (tooltip_height g))) padding
      \<and> \<bar>y - (innerHeight g - tooltip_height g - 12)\<bar> \<le> 1 / 1024
      \<and> y + tooltip_height g \<le> innerHeight g"
      by blast
  qed
  have r10: "overflows_bottom g \<and> innerHeight g \<le> tooltip_height g + 24 \<longrightarrow> y = 12"
    using y1(3) by (simp add: y_def)
  from r0 r1 r2 r3 r4 r5 r6 r7 r8 r9 r10
  show "\<exists>x y. positionTooltipNear g = (Num x, Num y) \<and> 12 \<le> x \<and> 12 \<le> y
           \<and> (overflows_right g \<longrightarrow>
                 innerWidth g - 12 - 1 / 256 < rect_right g + 12 + tooltip_width g)
           \<and> (innerWidth g - 12 + 1 / 256 < rect_right g + 12 + tooltip_width g \<longrightarrow>
                 overflows_right g)
           \<and> (\<not> overflows_right g \<and> 0 \<le> rect_right g \<longrightarrow>
                 Num x = jadd (Num (rect_right g)) padding
                 \<and> \<bar>x - (rect_right g + 12)\<bar> \<le> 1 / 1024
                 \<and> x + tooltip_width g \<le> innerWidth g)
           \<and> (overflows_right g \<and> tooltip_width g + 24 \<le> rect_left g \<longrightarrow>
                 Num x = jsub (jsub (Num (rect_left g)) (Num (tooltip_width g))) padding
                 \<and> \<bar>x - (rect_left g - tooltip_width g - 12)\<bar> \<le> 1 / 1024
                 \<and> x + tooltip_width g < rect_left g
                 \<and> (rect_left g \<le> innerWidth g \<longrightarrow> x + tooltip_width g \<le> innerWidth g))
           \<and> (overflows_right g \<and> rect_left g \<le> tooltip_width g + 24 \<longrightarrow> x = 12)
           \<and> (overflows_bottom g \<longrightarrow>
                 innerHeight g - 12 - 1 / 256 < rect_top g + tooltip_height g)
           \<and> (innerHeight g - 12 + 1 / 256 < rect_top g + tooltip_height g \<longrightarrow>
                 overflows_bottom g)
           \<and> (\<not> overflows_bottom g \<longrightarrow>
                 y = max 12 (rect_top g)
                 \<and> (12 \<le> rect_top g \<longrightarrow> y + tooltip_height g \<le> innerHeight g))
           \<and> (overflows_bottom g \<and> tooltip_height g + 24 \<le> innerHeight g \<longrightarrow>
                 Num y = jsub (jsub (Num (innerHeight g)) (Num (tooltip_height g))) padding
                 \<and> \<bar>y - (innerHeight g - tooltip_height g - 12)\<bar> \<le> 1 / 1024
                 \<and> y + tooltip_height g \<le> innerHeight g)
           \<and> (overflows_bottom g \<and> innerHeight g \<le> tooltip_height g + 24 \<longrightarrow> y = 12)"
    by blast
qed

definition right_edge_geometry :: geometry where
  "right_edge_geometry =
     \<lparr>rect_left = 1801 / 2, rect_right = 1921 / 2, rect_top = 700, tooltip_width = 320,
      tooltip_height = 361 / 2, innerWidth = 1000, innerHeight = 720\<rparr>"

theorem C9_witness:
  "on_screen right_edge_geometry
   \<and> overflows_right right_edge_geometry
   \<and> tooltip_width right_edge_geometry + 24 \<le> rect_left right_edge_geometry
   \<and> rect_left right_edge_geometry \<le> innerWidth right_edge_geometry
   \<and> overflows_bottom right_edge_geometry
   \<and> tooltip_height right_edge_geometry + 24 \<le> innerHeight right_edge_geometry
   \<and> positionTooltipNear right_edge_geometry = (Num (1137 / 2), Num (1055 / 2))
   \<and> on_screen example_geometry
   \<and> \<not> overflows_right example_geometry \<and> 0 \<le> rect_right example_geometry
   \<and> \<not> overflows_bottom example_geometry
   \<and> positionTooltipNear example_geometry = (Num 224, Num 100)
   \<and> on_screen tight_geometry
   \<and> overflows_right tight_geometry
   \<and> rect_left tight_geometry \<le> tooltip_width tight_geometry + 24
   \<and> \<not> overflows_bottom tight_geometry
   \<and> positionTooltipNear tight_geometry = (Num 12, Num 100)"
proof -
  have h1: "on_screen right_edge_geometry
     \<and> overflows_right right_edge_geometry
     \<and> tooltip_width right_edge_geometry + 24 \<le> rect_left right_edge_geometry
     \<and> rect_left right_edge_geometry \<le> innerWidth right_edge_geometry
     \<and> overflows_bottom right_edge_geometry
     \<and> tooltip_height right_edge_geometry + 24 \<le> innerHeight right_edge_geometry"
    by (simp add: right_edge_geometry_def overflows_right_def overflows_bottom_def on_screen_def
        padding_def jsub_def)
  have h2: "on_screen example_geometry
     \<and> \<not> overflows_right example_geometry \<and> 0 \<le> rect_right example_geometry
     \<and> \<not> overflows_bottom example_geometry"
    by (simp add: example_geometry_def overflows_right_def overflows_bottom_def on_screen_def
        padding_def jsub_def)
  have h3: "on_screen tight_geometry
     \<and> overflows_right tight_geometry
     \<and> rect_left tight_geometry \<le> tooltip_width tight_geometry + 24
     \<and> \<not> overflows_bottom tight_geometry"
    by (simp add: tight_geometry_def overflows_right_def overflows_bottom_def on_screen_def
        padding_def jsub_def)
  from C9_positioner [of right_edge_geometry] h1
  have r1: "positionTooltipNear right_edge_geometry = (Num (1137 / 2), Num (1055 / 2))"
    by (auto simp: right_edge_geometry_def padding_def jsub_def)
  from C9_positioner [of example_geometry] h2
  have r2: "positionTooltipNear example_geometry = (Num 224, Num 100)"
    by (auto simp: example_geometry_def padding_def)
  from C9_positioner [of tight_geometry] h3
  have r3: "positionTooltipNear tight_geometry = (Num 12, Num 100)"
    by (auto simp: tight_geometry_def)
  from h1 h2 h3 r1 r2 r3 show ?thesis by blast
qed

end
